theory Spec2Isabelle
  imports Main "HOL-Library.Sublist"
begin

section \<open>Tiled image convolution with work-group local memory\<close>

text \<open>
  The development embeds \<^verbatim>\<open>Code_Exercises/Section_10_Local_Memory_Tiling/solution.cpp\<close>:
  the host program \<^verbatim>\<open>main\<close> and the kernel lambda it submits. Every work-item of the
  kernel runs the same straight-line sequence of memory actions (the loops have bounds that
  do not depend on data), so a work-item is modelled by the list of actions it performs in
  program order, and a dispatch by the interleavings of these lists that respect the group
  barrier.

  Indices are \<^verbatim>\<open>size_t\<close> in the source. They are natural numbers here: every
  index the kernel computes is bounded by the size of a buffer that was allocated, so no
  index arithmetic wraps. Pixel arithmetic is \<^verbatim>\<open>float\<close> in the source; the
  model takes the component type as a parameter with its own \<open>0\<close>, \<open>+\<close> and \<open>*\<close> and
  assumes no law about them unless a theorem says so.
\<close>

subsection \<open>Pixels: \<^verbatim>\<open>sycl::float4\<close>\<close>

datatype 'a float4 = Float4 'a 'a 'a 'a

text \<open>\<^verbatim>\<open>sycl::float4 { 0.0f, 0.0f, 0.0f, 0.0f }\<close>\<close>

definition f4_zero :: "('a::zero) float4" where
  "f4_zero = Float4 0 0 0 0"

text \<open>\<^verbatim>\<open>operator+\<close> and \<^verbatim>\<open>operator*\<close> of \<^verbatim>\<open>sycl::vec\<close> work component by component.\<close>

fun f4_add :: "('a::plus) float4 \<Rightarrow> 'a float4 \<Rightarrow> 'a float4" where
  "f4_add (Float4 a b c d) (Float4 a' b' c' d') = Float4 (a + a') (b + b') (c + c') (d + d')"

fun f4_mul :: "('a::times) float4 \<Rightarrow> 'a float4 \<Rightarrow> 'a float4" where
  "f4_mul (Float4 a b c d) (Float4 a' b' c' d') = Float4 (a * a') (b * b') (c * c') (d * d')"

subsection \<open>Geometry\<close>

type_synonym id2 = "nat \<times> nat"

text \<open>
  The values \<^verbatim>\<open>main\<close> reads from the image and the filter: \<^verbatim>\<open>inputImage.height()\<close>,
  \<^verbatim>\<open>inputImage.width()\<close>, \<^verbatim>\<open>filter.width()\<close> and \<^verbatim>\<open>filter.half_width()\<close>.
\<close>

record geom =
  inputImgHeight :: nat
  inputImgWidth :: nat
  filterWidth :: nat
  halo :: nat

text \<open>
  Modelled from the spec: \<^verbatim>\<open>filter.half_width()\<close> belongs to the filter class of
  \<^verbatim>\<open>image_conv.h\<close>, which is not part of the sources; the specification gives
  \<^verbatim>\<open>halfWidth = filterWidth/2\<close>.
\<close>

definition half_width :: "nat \<Rightarrow> nat" where
  "half_width w = w div 2"

definition range_size :: "id2 \<Rightarrow> nat" where
  "range_size r = fst r * snd r"

definition globalRange :: "geom \<Rightarrow> id2" where
  "globalRange g = (inputImgHeight g, inputImgWidth g)"

definition localRange :: id2 where
  "localRange = (8, 8)"

definition inBufRange :: "geom \<Rightarrow> id2" where
  "inBufRange g = (inputImgHeight g + halo g * 2, inputImgWidth g + halo g * 2)"

definition outBufRange :: "geom \<Rightarrow> id2" where
  "outBufRange g = (inputImgHeight g, inputImgWidth g)"

definition filterRange :: "geom \<Rightarrow> id2" where
  "filterRange g = (filterWidth g, filterWidth g)"

definition scratchpadRange :: "geom \<Rightarrow> id2" where
  "scratchpadRange g = (fst localRange + halo g * 2, snd localRange + halo g * 2)"

subsection \<open>Work-items\<close>

text \<open>
  A \<^verbatim>\<open>sycl::nd_item<2>\<close> is identified by its group and its position in the group; its
  global id is \<^verbatim>\<open>group_id * local_range + local_id\<close>.
\<close>

record nd_item =
  group_id :: id2
  local_id :: id2

definition get_global_id :: "nd_item \<Rightarrow> id2" where
  "get_global_id it =
     (fst (group_id it) * fst localRange + fst (local_id it),
      snd (group_id it) * snd localRange + snd (local_id it))"

definition group_items :: "id2 \<Rightarrow> nd_item list" where
  "group_items grp =
     map (\<lambda>lid. \<lparr>group_id = grp, local_id = lid\<rparr>)
       (List.product [0..<fst localRange] [0..<snd localRange])"

text \<open>
  The groups of \<^verbatim>\<open>sycl::nd_range(globalRange, localRange)\<close>: the group range is the
  global range divided by the local range, component by component.
\<close>

definition group_range :: "geom \<Rightarrow> id2" where
  "group_range g =
     (fst (globalRange g) div fst localRange, snd (globalRange g) div snd localRange)"

definition nd_groups :: "geom \<Rightarrow> id2 list" where
  "nd_groups g = List.product [0..<fst (group_range g)] [0..<snd (group_range g)]"

definition nd_items :: "geom \<Rightarrow> nd_item list" where
  "nd_items g = concat (map group_items (nd_groups g))"

subsection \<open>The kernel as the actions of one work-item\<close>

datatype event =
    Stage id2 nat    \<comment> \<open>\<^verbatim>\<open>scratchpad[i][j] = inDev4[k]\<close>\<close>
  | GroupBarrier     \<comment> \<open>\<^verbatim>\<open>sycl::group_barrier(item.get_group())\<close>\<close>
  | SumInit          \<comment> \<open>\<^verbatim>\<open>auto sum = sycl::float4 { 0.0f, 0.0f, 0.0f, 0.0f }\<close>\<close>
  | MulAcc id2 nat   \<comment> \<open>\<^verbatim>\<open>sum += scratchpad[cell] * filterDev4[k]\<close>\<close>
  | Store nat        \<comment> \<open>\<^verbatim>\<open>outDev4[k] = sum\<close>\<close>

text \<open>\<^verbatim>\<open>globalGroupOffset = groupId * localRange\<close>\<close>

definition globalGroupOffset :: "nd_item \<Rightarrow> id2" where
  "globalGroupOffset it =
     (fst (group_id it) * fst localRange, snd (group_id it) * snd localRange)"

text \<open>The inner loop of the tile loader, from column \<open>j\<close> on, in row \<open>i\<close>.\<close>

function loader_cols :: "geom \<Rightarrow> id2 \<Rightarrow> nat \<Rightarrow> nat \<Rightarrow> event list" where
  "loader_cols g ggo i j =
     (if j < snd (scratchpadRange g)
      then Stage (i, j) ((fst ggo + i) * snd (inBufRange g) + snd ggo + j)
             # loader_cols g ggo i (j + snd localRange)
      else [])"
  by pat_completeness auto
termination
  by (relation "measure (\<lambda>(g, ggo, i, j). snd (scratchpadRange g) - j)")
     (auto simp: localRange_def)

text \<open>The outer loop of the tile loader, from row \<open>i\<close> on.\<close>

function loader_rows :: "geom \<Rightarrow> id2 \<Rightarrow> id2 \<Rightarrow> nat \<Rightarrow> event list" where
  "loader_rows g ggo lid i =
     (if i < fst (scratchpadRange g)
      then loader_cols g ggo i (snd lid) @ loader_rows g ggo lid (i + fst localRange)
      else [])"
  by pat_completeness auto
termination
  by (relation "measure (\<lambda>(g, ggo, lid, i). fst (scratchpadRange g) - i)")
     (auto simp: localRange_def)

definition tile_loader :: "geom \<Rightarrow> nd_item \<Rightarrow> event list" where
  "tile_loader g it = loader_rows g (globalGroupOffset it) (local_id it) (fst (local_id it))"

text \<open>The inner loop of the convolution, from column \<open>c\<close> on, in filter row \<open>r\<close>.\<close>

function conv_cols :: "geom \<Rightarrow> id2 \<Rightarrow> nat \<Rightarrow> nat \<Rightarrow> event list" where
  "conv_cols g lid r c =
     (if c < filterWidth g
      then MulAcc (fst lid + r, snd lid + c) (r * snd (filterRange g) + c)
             # conv_cols g lid r (c + 1)
      else [])"
  by pat_completeness auto
termination
  by (relation "measure (\<lambda>(g, lid, r, c). filterWidth g - c)") auto

text \<open>The outer loop of the convolution, from filter row \<open>r\<close> on.\<close>

function conv_rows :: "geom \<Rightarrow> id2 \<Rightarrow> nat \<Rightarrow> event list" where
  "conv_rows g lid r =
     (if r < filterWidth g
      then conv_cols g lid r 0 @ conv_rows g lid (r + 1)
      else [])"
  by pat_completeness auto
termination
  by (relation "measure (\<lambda>(g, lid, r). filterWidth g - r)") auto

definition out_index :: "geom \<Rightarrow> nd_item \<Rightarrow> nat" where
  "out_index g it =
     fst (get_global_id it) * snd (outBufRange g) + snd (get_global_id it)"

definition conv_evaluator :: "geom \<Rightarrow> nd_item \<Rightarrow> event list" where
  "conv_evaluator g it = SumInit # conv_rows g (local_id it) 0 @ [Store (out_index g it)]"

definition kernel_item :: "geom \<Rightarrow> nd_item \<Rightarrow> event list" where
  "kernel_item g it = tile_loader g it @ [GroupBarrier] @ conv_evaluator g it"

declare loader_cols.simps [simp del] loader_rows.simps [simp del]
declare conv_cols.simps [simp del] conv_rows.simps [simp del]

subsection \<open>Device state and the effect of one action\<close>

text \<open>
  Reading or writing outside a buffer, and reading a cell of local memory that nothing has
  written, are undefined in the source; the model makes each of them an error.
\<close>

datatype error =
    InputOutOfBounds
  | FilterOutOfBounds
  | OutputOutOfBounds
  | ScratchOutOfBounds
  | ScratchUninitialised
  | HostOutOfBounds

text \<open>
  \<open>pc\<close> holds what each work-item has still to do, \<open>priv_sum\<close> its private variable
  \<^verbatim>\<open>sum\<close>, \<open>scratch\<close> the local memory of each group (\<open>None\<close>: not written since the
  dispatch began) and \<open>outDev\<close> the output buffer in device memory.
\<close>

record 'a config =
  pc :: "nd_item \<Rightarrow> event list"
  priv_sum :: "nd_item \<Rightarrow> 'a float4"
  scratch :: "id2 \<Rightarrow> id2 \<rightharpoonup> 'a float4"
  outDev :: "'a float4 list"

definition in_range :: "id2 \<Rightarrow> id2 \<Rightarrow> bool" where
  "in_range cell r = (fst cell < fst r \<and> snd cell < snd r)"

fun exec_event ::
  "geom \<Rightarrow> ('a::{zero,plus,times}) float4 list \<Rightarrow> 'a float4 list \<Rightarrow> nd_item \<Rightarrow> event
     \<Rightarrow> 'a config \<Rightarrow> error + 'a config" where
  "exec_event g inDev filterDev it (Stage cell k) c =
     (if \<not> k < length inDev then Inl InputOutOfBounds
      else if \<not> in_range cell (scratchpadRange g) then Inl ScratchOutOfBounds
      else Inr (c\<lparr>scratch := (scratch c)
                     (group_id it := (scratch c (group_id it))(cell \<mapsto> inDev ! k))\<rparr>))"
| "exec_event g inDev filterDev it GroupBarrier c = Inr c"
| "exec_event g inDev filterDev it SumInit c =
     Inr (c\<lparr>priv_sum := (priv_sum c)(it := f4_zero)\<rparr>)"
| "exec_event g inDev filterDev it (MulAcc cell k) c =
     (if \<not> in_range cell (scratchpadRange g) then Inl ScratchOutOfBounds
      else case scratch c (group_id it) cell of
        None \<Rightarrow> Inl ScratchUninitialised
      | Some v \<Rightarrow>
          if \<not> k < length filterDev then Inl FilterOutOfBounds
          else Inr (c\<lparr>priv_sum := (priv_sum c)
                         (it := f4_add (priv_sum c it) (f4_mul v (filterDev ! k)))\<rparr>))"
| "exec_event g inDev filterDev it (Store k) c =
     (if \<not> k < length (outDev c) then Inl OutputOutOfBounds
      else Inr (c\<lparr>outDev := (outDev c)[k := priv_sum c it]\<rparr>))"

text \<open>A work-item running a piece of its code that holds no barrier, on its own.\<close>

fun exec_seq ::
  "geom \<Rightarrow> ('a::{zero,plus,times}) float4 list \<Rightarrow> 'a float4 list \<Rightarrow> nd_item \<Rightarrow> event list
     \<Rightarrow> 'a config \<Rightarrow> error + 'a config" where
  "exec_seq g inDev filterDev it [] c = Inr c"
| "exec_seq g inDev filterDev it (e # es) c =
     (case exec_event g inDev filterDev it e c of
        Inl err \<Rightarrow> Inl err
      | Inr c' \<Rightarrow> exec_seq g inDev filterDev it es c')"

subsection \<open>Interleaved execution of a dispatch\<close>

text \<open>
  A work-item has arrived at the barrier when the barrier is its next action or lies behind
  it. The barrier lets a work-item through once every work-item of its group has arrived.
\<close>

definition arrived :: "event list \<Rightarrow> bool" where
  "arrived es = (case es of GroupBarrier # _ \<Rightarrow> True | _ \<Rightarrow> GroupBarrier \<notin> set es)"

definition barrier_open :: "'a config \<Rightarrow> id2 \<Rightarrow> bool" where
  "barrier_open c grp = list_all (\<lambda>it. arrived (pc c it)) (group_items grp)"

text \<open>
  One scheduling decision: work-item \<open>it\<close> performs its next action. A work-item that has
  finished, or that waits at a barrier not yet open, leaves the configuration as it is.
\<close>

definition step ::
  "geom \<Rightarrow> ('a::{zero,plus,times}) float4 list \<Rightarrow> 'a float4 list \<Rightarrow> nd_item
     \<Rightarrow> 'a config \<Rightarrow> error + 'a config" where
  "step g inDev filterDev it c =
     (case pc c it of
        [] \<Rightarrow> Inr c
      | e # es \<Rightarrow>
          if e = GroupBarrier \<and> \<not> barrier_open c (group_id it) then Inr c
          else (case exec_event g inDev filterDev it e c of
                  Inl err \<Rightarrow> Inl err
                | Inr c' \<Rightarrow> Inr (c'\<lparr>pc := (pc c')(it := es)\<rparr>)))"

text \<open>A schedule is the sequence of scheduling decisions the device takes.\<close>

fun run ::
  "geom \<Rightarrow> ('a::{zero,plus,times}) float4 list \<Rightarrow> 'a float4 list \<Rightarrow> nd_item list
     \<Rightarrow> 'a config \<Rightarrow> error + 'a config" where
  "run g inDev filterDev [] c = Inr c"
| "run g inDev filterDev (it # sched) c =
     (case step g inDev filterDev it c of
        Inl err \<Rightarrow> Inl err
      | Inr c' \<Rightarrow> run g inDev filterDev sched c')"

text \<open>
  At the start of a dispatch every work-item of the range has the whole kernel before it
  (there are no others) and local memory is unwritten; the private variables and the output
  buffer hold whatever they held.
\<close>

definition init_config :: "geom \<Rightarrow> (nd_item \<Rightarrow> 'a float4) \<Rightarrow> 'a float4 list \<Rightarrow> 'a config" where
  "init_config g sums out0 =
     \<lparr>pc = (\<lambda>it. if it \<in> set (nd_items g) then kernel_item g it else []),
      priv_sum = sums, scratch = (\<lambda>grp. Map.empty), outDev = out0\<rparr>"

definition finished :: "geom \<Rightarrow> 'a config \<Rightarrow> bool" where
  "finished g c = list_all (\<lambda>it. pc c it = []) (nd_items g)"

subsection \<open>The reference convolution\<close>

text \<open>
  The naive convolution the specification compares with: for the output pixel \<open>(y, x)\<close> the
  sum, over the filter in row-major order, of
  \<^verbatim>\<open>input[(y + r) * paddedWidth + (x + c)] * filter[r][c]\<close>, read from the padded input.
\<close>

definition naive_pixel ::
  "geom \<Rightarrow> ('a::{zero,plus,times}) float4 list \<Rightarrow> 'a float4 list \<Rightarrow> nat \<Rightarrow> nat \<Rightarrow> 'a float4" where
  "naive_pixel g inp filt y x =
     foldl (\<lambda>s (r, c). f4_add s
              (f4_mul (inp ! ((y + r) * (inputImgWidth g + 2 * halo g) + (x + c)))
                      (filt ! (r * filterWidth g + c))))
       f4_zero (List.product [0..<filterWidth g] [0..<filterWidth g])"

definition naive_convolution ::
  "geom \<Rightarrow> ('a::{zero,plus,times}) float4 list \<Rightarrow> 'a float4 list \<Rightarrow> 'a float4 list" where
  "naive_convolution g inp filt =
     map (\<lambda>k. naive_pixel g inp filt (k div inputImgWidth g) (k mod inputImgWidth g))
       [0..<inputImgHeight g * inputImgWidth g]"



subsection \<open>The host program\<close>

text \<open>
  The statements of the \<^verbatim>\<open>try\<close> block of \<^verbatim>\<open>main\<close>, in the order of the source.
  Each of them calls into the SYCL runtime and may raise a \<^verbatim>\<open>sycl::exception\<close>.
  The output statement is two steps, since its operands are evaluated from left to right:
  the text is written before the device is asked for its name.
  \<open>Benchmark\<close> is the call of \<^verbatim>\<open>util::benchmark\<close>, whose argument submits the kernel and
  waits for it.
\<close>

datatype try_step =
    SelectDevice     \<comment> \<open>\<^verbatim>\<open>sycl::queue myQueue { sycl::gpu_selector_v }\<close>\<close>
  | PrintRunningOn   \<comment> \<open>\<^verbatim>\<open>std::cout << "Running on "\<close>\<close>
  | GetDeviceName    \<comment> \<open>\<^verbatim>\<open><< myQueue.get_device().get_info<sycl::info::device::name>() << "\n"\<close>\<close>
  | MallocIn         \<comment> \<open>\<^verbatim>\<open>inDev = sycl::malloc_device<float>(...)\<close>\<close>
  | MallocOut        \<comment> \<open>\<^verbatim>\<open>outDev = sycl::malloc_device<float>(...)\<close>\<close>
  | MallocFilter     \<comment> \<open>\<^verbatim>\<open>filterDev = sycl::malloc_device<float>(...)\<close>\<close>
  | CopyIn           \<comment> \<open>\<^verbatim>\<open>myQueue.copy<float>(inputImage.data(), inDev, ...)\<close>\<close>
  | CopyFilter       \<comment> \<open>\<^verbatim>\<open>myQueue.copy<float>(filter.data(), filterDev, ...)\<close>\<close>
  | WaitCopies       \<comment> \<open>\<^verbatim>\<open>myQueue.wait_and_throw()\<close>\<close>
  | Benchmark        \<comment> \<open>\<^verbatim>\<open>util::benchmark([&] { myQueue.submit(...); myQueue.wait_and_throw(); }, ...)\<close>\<close>
  | CopyBack         \<comment> \<open>\<^verbatim>\<open>myQueue.copy<float>(outDev, outputImage.data(), ...).wait()\<close>\<close>
  | FreeIn           \<comment> \<open>\<^verbatim>\<open>sycl::free(inDev, myQueue)\<close>\<close>
  | FreeOut          \<comment> \<open>\<^verbatim>\<open>sycl::free(outDev, myQueue)\<close>\<close>
  | FreeFilter       \<comment> \<open>\<^verbatim>\<open>sycl::free(filterDev, myQueue)\<close>\<close>

definition try_block :: "try_step list" where
  "try_block = [SelectDevice, PrintRunningOn, GetDeviceName, MallocIn, MallocOut, MallocFilter,
                CopyIn, CopyFilter, WaitCopies, Benchmark, CopyBack,
                FreeIn, FreeOut, FreeFilter]"

text \<open>
  What the program does not decide: which statement the runtime lets fail and with which
  message, the name of the device, what fresh host and device memory hold, what the
  registers of the work-items hold, and the order in which the device interleaves the
  work-items.
\<close>

record 'a env =
  throws :: "try_step \<Rightarrow> string option"
  device_name :: string
  host_garbage :: "nat \<Rightarrow> 'a float4"
  device_garbage :: "nat \<Rightarrow> 'a float4"
  registers :: "nd_item \<Rightarrow> 'a float4"
  schedule :: "nd_item list"

text \<open>
  The state of \<^verbatim>\<open>main\<close>: the text written to \<^verbatim>\<open>std::cout\<close>, the host image
  \<^verbatim>\<open>outputImage\<close> and the three device buffers. Buffers are counted in pixels: the
  source allocates \<^verbatim>\<open>size() * channels\<close> floats and reads them as \<^verbatim>\<open>float4\<close>,
  four channels to the pixel.
\<close>

record 'a mstate =
  printed :: string
  outputImage :: "'a float4 list"
  inDevBuf :: "'a float4 list"
  outDevBuf :: "'a float4 list"
  filterDevBuf :: "'a float4 list"

text \<open>
  How a statement of the \<^verbatim>\<open>try\<close> block can fail to complete: it throws, it performs an
  undefined memory access, or it waits for a kernel that does not complete.
\<close>

datatype abort = Throw string | UB error | NoReturn

datatype 'a outcome =
    Undefined error
  | Waiting
  | Returned string "'a float4 list" int
      \<comment> \<open>the text printed, the image given to \<^verbatim>\<open>write_image\<close>, the exit status\<close>

text \<open>
  Modelled from the spec: \<^verbatim>\<open>util::allocate_image\<close> (\<^verbatim>\<open>image_conv.h\<close>, not part of the
  sources) allocates an uninitialised output buffer of exactly the given dimensions.
\<close>

definition allocate_image :: "'a env \<Rightarrow> geom \<Rightarrow> 'a float4 list" where
  "allocate_image e g = map (host_garbage e) [0..<inputImgHeight g * inputImgWidth g]"

definition malloc_device :: "'a env \<Rightarrow> nat \<Rightarrow> 'a float4 list" where
  "malloc_device e n = map (device_garbage e) [0..<n]"

text \<open>\<^verbatim>\<open>queue::copy(src, dst, n)\<close>: the first \<open>n\<close> elements of \<open>dst\<close> become those of \<open>src\<close>.\<close>

definition copy :: "nat \<Rightarrow> 'a float4 list \<Rightarrow> 'a float4 list \<Rightarrow> abort + 'a float4 list" where
  "copy n src dst =
     (if n \<le> length src \<and> n \<le> length dst then Inr (take n src @ drop n dst)
      else Inl (UB HostOutOfBounds))"

text \<open>
  The function \<^verbatim>\<open>main\<close> gives to \<^verbatim>\<open>util::benchmark\<close>: it submits the kernel and
  calls \<^verbatim>\<open>wait_and_throw\<close>, which returns when the kernel is complete.
\<close>

definition submit_and_wait ::
  "('a::{zero,plus,times}) env \<Rightarrow> geom \<Rightarrow> 'a mstate \<Rightarrow> abort + 'a mstate" where
  "submit_and_wait e g s =
     (case run g (inDevBuf s) (filterDevBuf s) (schedule e)
             (init_config g (registers e) (outDevBuf s)) of
        Inl err \<Rightarrow> Inl (UB err)
      | Inr c \<Rightarrow> if finished g c then Inr (s\<lparr>outDevBuf := outDev c\<rparr>) else Inl NoReturn)"

text \<open>
  Modelled from the spec: \<^verbatim>\<open>util::benchmark\<close> (\<^verbatim>\<open>benchmark.h\<close>, not part of the
  sources) is the timing utility, an external collaborator of the core. It runs the
  function it is given; every run dispatches the same kernel on the same buffers, so the
  model runs it once, whatever the number of iterations.
\<close>

definition benchmark :: "('s \<Rightarrow> abort + 's) \<Rightarrow> nat \<Rightarrow> 's \<Rightarrow> abort + 's" where
  "benchmark f iterations s = f s"

text \<open>The effect of a statement that does not throw; one that throws has none.\<close>

fun effect ::
  "('a::{zero,plus,times}) env \<Rightarrow> geom \<Rightarrow> 'a float4 list \<Rightarrow> 'a float4 list \<Rightarrow> try_step
     \<Rightarrow> 'a mstate \<Rightarrow> abort + 'a mstate" where
  "effect e g inputImage filt SelectDevice s = Inr s"
| "effect e g inputImage filt PrintRunningOn s =
     Inr (s\<lparr>printed := printed s @ ''Running on ''\<rparr>)"
| "effect e g inputImage filt GetDeviceName s =
     Inr (s\<lparr>printed := printed s @ device_name e @ [CHR 0x0A]\<rparr>)"
| "effect e g inputImage filt MallocIn s =
     Inr (s\<lparr>inDevBuf := malloc_device e (range_size (inBufRange g))\<rparr>)"
| "effect e g inputImage filt MallocOut s =
     Inr (s\<lparr>outDevBuf := malloc_device e (range_size (outBufRange g))\<rparr>)"
| "effect e g inputImage filt MallocFilter s =
     Inr (s\<lparr>filterDevBuf := malloc_device e (range_size (filterRange g))\<rparr>)"
| "effect e g inputImage filt CopyIn s =
     (case copy (range_size (inBufRange g)) inputImage (inDevBuf s) of
        Inl a \<Rightarrow> Inl a
      | Inr b \<Rightarrow> Inr (s\<lparr>inDevBuf := b\<rparr>))"
| "effect e g inputImage filt CopyFilter s =
     (case copy (range_size (filterRange g)) filt (filterDevBuf s) of
        Inl a \<Rightarrow> Inl a
      | Inr b \<Rightarrow> Inr (s\<lparr>filterDevBuf := b\<rparr>))"
| "effect e g inputImage filt WaitCopies s = Inr s"
| "effect e g inputImage filt Benchmark s = benchmark (submit_and_wait e g) 100 s"
| "effect e g inputImage filt CopyBack s =
     (case copy (range_size (outBufRange g)) (outDevBuf s) (outputImage s) of
        Inl a \<Rightarrow> Inl a
      | Inr b \<Rightarrow> Inr (s\<lparr>outputImage := b\<rparr>))"
| "effect e g inputImage filt FreeIn s = Inr s"
| "effect e g inputImage filt FreeOut s = Inr s"
| "effect e g inputImage filt FreeFilter s = Inr s"

text \<open>
  The \<^verbatim>\<open>try\<close> block: the statements run in order; the first that does not complete ends
  the block, and the state reached so far stays.
\<close>

fun run_try ::
  "('a::{zero,plus,times}) env \<Rightarrow> geom \<Rightarrow> 'a float4 list \<Rightarrow> 'a float4 list \<Rightarrow> try_step list
     \<Rightarrow> 'a mstate \<Rightarrow> (abort \<times> 'a mstate) + 'a mstate" where
  "run_try e g inputImage filt [] s = Inr s"
| "run_try e g inputImage filt (st # sts) s =
     (case throws e st of
        Some msg \<Rightarrow> Inl (Throw msg, s)
      | None \<Rightarrow>
          (case effect e g inputImage filt st s of
             Inl a \<Rightarrow> Inl (a, s)
           | Inr s' \<Rightarrow> run_try e g inputImage filt sts s'))"

text \<open>
  \<^verbatim>\<open>main\<close>, given the image and the filter that \<^verbatim>\<open>read_image\<close> and
  \<^verbatim>\<open>generate_filter\<close> returned and their dimensions \<open>g\<close>. The handler of the
  \<^verbatim>\<open>catch\<close> clause prints the message; \<^verbatim>\<open>write_image\<close> is called after the
  \<^verbatim>\<open>try\<close> statement on either path, and \<^verbatim>\<open>main\<close> returns by reaching its end
  (\<^verbatim>\<open>SYCLACADEMY_ASSERT(true)\<close> asserts nothing). What the timing utility prints is
  not part of the model.
\<close>

definition main ::
  "('a::{zero,plus,times}) env \<Rightarrow> geom \<Rightarrow> 'a float4 list \<Rightarrow> 'a float4 list \<Rightarrow> 'a outcome" where
  "main e g inputImage filt =
     (case run_try e g inputImage filt try_block
             \<lparr>printed = [], outputImage = allocate_image e g,
              inDevBuf = [], outDevBuf = [], filterDevBuf = []\<rparr> of
        Inr s \<Rightarrow> Returned (printed s) (outputImage s) 0
      | Inl (Throw msg, s) \<Rightarrow>
          Returned (printed s @ ''Exception caught: '' @ msg @ [CHR 0x0A]) (outputImage s) 0
      | Inl (UB err, s) \<Rightarrow> Undefined err
      | Inl (NoReturn, s) \<Rightarrow> Waiting)"


subsection \<open>What a dispatch maintains\<close>

text \<open>The buffers have the sizes \<^verbatim>\<open>main\<close> allocates, and the halo is that of the filter.\<close>

definition well_formed :: "geom \<Rightarrow> 'a float4 list \<Rightarrow> 'a float4 list \<Rightarrow> bool" where
  "well_formed g inDev filterDev =
     (halo g = half_width (filterWidth g) \<and>
      length inDev = range_size (inBufRange g) \<and>
      length filterDev = range_size (filterRange g))"

text \<open>The input element a group's tile holds at a cell once the cell is staged.\<close>

definition tile :: "geom \<Rightarrow> 'a float4 list \<Rightarrow> id2 \<Rightarrow> id2 \<Rightarrow> 'a float4" where
  "tile g inDev grp cell =
     inDev ! ((fst grp * fst localRange + fst cell) * snd (inBufRange g)
                + snd grp * snd localRange + snd cell)"

text \<open>The private sum of a work-item after an action, when the tile is complete.\<close>

fun replay :: "(id2 \<Rightarrow> ('a::{zero,plus,times}) float4) \<Rightarrow> 'a float4 list \<Rightarrow> 'a float4 \<Rightarrow> event
    \<Rightarrow> 'a float4" where
  "replay t filterDev s SumInit = f4_zero"
| "replay t filterDev s (MulAcc cell k) = f4_add s (f4_mul (t cell) (filterDev ! k))"
| "replay t filterDev s (Stage cell k) = s"
| "replay t filterDev s GroupBarrier = s"
| "replay t filterDev s (Store k) = s"

definition conv_sum ::
  "geom \<Rightarrow> ('a::{zero,plus,times}) float4 list \<Rightarrow> 'a float4 list \<Rightarrow> nd_item \<Rightarrow> 'a float4" where
  "conv_sum g inDev filterDev it =
     foldl (replay (tile g inDev (group_id it)) filterDev) f4_zero (conv_rows g (local_id it) 0)"

text \<open>
  The invariant of a dispatch: a work-item outside the range has nothing to do; a work-item
  of the range has done a prefix of its kernel, and its private sum is what that prefix
  computes; a written cell of a tile holds the input element that belongs there; a cell that
  a work-item stages and that is still unwritten is still on that work-item's list; once a
  work-item is past the barrier, no work-item of its group has a cell left to stage; and the
  output buffer keeps its size and holds the sum of every work-item that is done.
\<close>

definition dispatch_inv ::
  "geom \<Rightarrow> ('a::{zero,plus,times}) float4 list \<Rightarrow> 'a float4 list \<Rightarrow> (nd_item \<Rightarrow> 'a float4)
     \<Rightarrow> 'a config \<Rightarrow> bool" where
  "dispatch_inv g inDev filterDev sums c =
     ((\<forall>it. it \<notin> set (nd_items g) \<longrightarrow> pc c it = []) \<and>
      (\<forall>it \<in> set (nd_items g). \<exists>done. kernel_item g it = done @ pc c it \<and>
          priv_sum c it = foldl (replay (tile g inDev (group_id it)) filterDev) (sums it) done) \<and>
      (\<forall>grp cell v. scratch c grp cell = Some v \<longrightarrow> v = tile g inDev grp cell) \<and>
      (\<forall>it \<in> set (nd_items g). \<forall>cell k. Stage cell k \<in> set (kernel_item g it) \<longrightarrow>
          scratch c (group_id it) cell = None \<longrightarrow> Stage cell k \<in> set (pc c it)) \<and>
      (\<forall>it \<in> set (nd_items g). GroupBarrier \<notin> set (pc c it) \<longrightarrow>
          (\<forall>it' \<in> set (group_items (group_id it)). \<forall>cell k. Stage cell k \<notin> set (pc c it'))) \<and>
      length (outDev c) = range_size (outBufRange g) \<and>
      (\<forall>it \<in> set (nd_items g). pc c it = [] \<longrightarrow>
          outDev c ! out_index g it = conv_sum g inDev filterDev it))"

text \<open>The number of actions the work-items of a dispatch have still to perform.\<close>

definition remaining :: "geom \<Rightarrow> 'a config \<Rightarrow> nat" where
  "remaining g c = sum_list (map (\<lambda>it. length (pc c it)) (nd_items g))"

text \<open>
  Round robin: every work-item of the range takes a turn, as many times over as the
  dispatch has actions.
\<close>

definition round_robin :: "geom \<Rightarrow> nd_item list" where
  "round_robin g =
     concat (replicate (sum_list (map (\<lambda>it. length (kernel_item g it)) (nd_items g)))
               (nd_items g))"


definition demo_geom :: geom where
  "demo_geom = \<lparr>inputImgHeight = 8, inputImgWidth = 8, filterWidth = 3, halo = 1\<rparr>"

definition demo_item :: nd_item where
  "demo_item = \<lparr>group_id = (0, 0), local_id = (1, 2)\<rparr>"

definition demo_item' :: nd_item where
  "demo_item' = \<lparr>group_id = (0, 0), local_id = (2, 1)\<rparr>"

definition demo_input :: "int float4 list" where
  "demo_input = map (\<lambda>k. Float4 (int k) 0 0 1) [0..<100]"

definition demo_filter :: "int float4 list" where
  "demo_filter = replicate 9 (Float4 1 1 1 1)"

definition demo_config :: "int config" where
  "demo_config = init_config demo_geom (\<lambda>it. f4_zero) (replicate 64 f4_zero)"

definition demo_staged :: "int config" where
  "demo_staged = demo_config\<lparr>scratch := (\<lambda>grp cell. Some (demo_input ! (fst cell * 10 + snd cell)))\<rparr>"

text \<open>The smallest dispatch: one group, a filter of width 1.\<close>

definition tiny_geom :: geom where
  "tiny_geom = \<lparr>inputImgHeight = 8, inputImgWidth = 8, filterWidth = 1, halo = 0\<rparr>"

definition tiny_input :: "int float4 list" where
  "tiny_input = map (\<lambda>k. Float4 (int k) 0 0 1) [0..<64]"

definition tiny_filter :: "int float4 list" where
  "tiny_filter = [Float4 1 1 1 1]"

definition tiny_sums :: "nd_item \<Rightarrow> int float4" where
  "tiny_sums = (\<lambda>it. Float4 7 7 7 7)"

definition tiny_out0 :: "int float4 list" where
  "tiny_out0 = replicate 64 (Float4 5 5 5 5)"

text \<open>An image smaller than a group, and a runtime that lets every statement complete.\<close>

definition odd_geom :: geom where
  "odd_geom = \<lparr>inputImgHeight = 4, inputImgWidth = 4, filterWidth = 1, halo = 0\<rparr>"

definition odd_input :: "int float4 list" where
  "odd_input = map (\<lambda>k. Float4 (int k) 0 0 1) [0..<16]"

definition quiet_env :: "int env" where
  "quiet_env = \<lparr>throws = (\<lambda>st. None), device_name = ''gpu'',
     host_garbage = (\<lambda>k. Float4 3 3 3 3), device_garbage = (\<lambda>k. Float4 9 9 9 9),
     registers = (\<lambda>it. Float4 7 7 7 7), schedule = []\<rparr>"


text \<open>A runtime that rejects the launch.\<close>

definition strict_env :: "int env" where
  "strict_env = quiet_env\<lparr>throws := (\<lambda>st. if st = Benchmark then Some ''nd_range'' else None)\<rparr>"

subsection \<open>A \<^verbatim>\<open>float\<close> with a signed zero\<close>

text \<open>
  The integer-valued values of \<^verbatim>\<open>float\<close>: a sign bit and a magnitude, so that \<open>+0.0\<close> and
  \<open>-0.0\<close> are two values. Addition and multiplication are those of IEEE 754 in the default
  rounding mode, which are exact on integer values of small magnitude: a product has the
  exclusive or of the signs of its factors, a sum of two values of one sign keeps that sign,
  and a sum of two values of opposite signs and equal magnitude is \<open>+0.0\<close>.
\<close>

datatype sfloat = SFloat bool nat  \<comment> \<open>sign bit (set: negative) and magnitude\<close>

instantiation sfloat :: "{zero,one,plus,times}"
begin

definition zero_sfloat :: sfloat where
  "zero_sfloat = SFloat False 0"

definition one_sfloat :: sfloat where
  "one_sfloat = SFloat False 1"

fun plus_sfloat :: "sfloat \<Rightarrow> sfloat \<Rightarrow> sfloat" where
  "plus_sfloat (SFloat s m) (SFloat t n) =
     (if s = t then SFloat s (m + n)
      else if n < m then SFloat s (m - n)
      else if m < n then SFloat t (n - m)
      else SFloat False 0)"

fun times_sfloat :: "sfloat \<Rightarrow> sfloat \<Rightarrow> sfloat" where
  "times_sfloat (SFloat s m) (SFloat t n) = SFloat (s \<noteq> t) (m * n)"

instance ..

end

text \<open>An 8 by 8 image whose second channel is \<open>-0.0\<close> in every pixel.\<close>

definition signed_input :: "sfloat float4 list" where
  "signed_input =
     map (\<lambda>k. Float4 (SFloat False k) (SFloat True 0) (SFloat False 0) (SFloat False 1)) [0..<64]"

section \<open>The shape of the kernel\<close>

subsection \<open>The convolution loops visit the filter in row-major order\<close>

lemma conv_cols_map:
  "conv_cols g lid r c =
     map (\<lambda>c. MulAcc (fst lid + r, snd lid + c) (r * snd (filterRange g) + c)) [c..<filterWidth g]"
proof (induction g lid r c rule: conv_cols.induct)
  case (1 g lid r c)
  show ?case
  proof (cases "c < filterWidth g")
    case True
    then show ?thesis
      using "1.IH" by (subst conv_cols.simps) (simp add: upt_conv_Cons)
  next
    case False
    then show ?thesis by (subst conv_cols.simps) simp
  qed
qed

lemma conv_rows_concat:
  "conv_rows g lid r =
     concat (map (\<lambda>r. map (\<lambda>c. MulAcc (fst lid + r, snd lid + c) (r * snd (filterRange g) + c))
                        [0..<filterWidth g]) [r..<filterWidth g])"
proof (induction g lid r rule: conv_rows.induct)
  case (1 g lid r)
  show ?case
  proof (cases "r < filterWidth g")
    case True
    then show ?thesis
      using "1.IH" by (subst conv_rows.simps) (simp add: upt_conv_Cons conv_cols_map)
  next
    case False
    then show ?thesis by (subst conv_rows.simps) simp
  qed
qed

lemma conv_rows_product:
  "conv_rows g lid 0 =
     map (\<lambda>(r, c). MulAcc (fst lid + r, snd lid + c) (r * filterWidth g + c))
       (List.product [0..<filterWidth g] [0..<filterWidth g])"
  by (simp add: conv_rows_concat product_concat_map map_concat comp_def filterRange_def)

subsection \<open>The loader loops visit a strided set of cells\<close>

lemma stride_next:
  fixes j j' s :: nat
  assumes "j \<le> j'" "j' mod s = j mod s" "j' \<noteq> j"
  shows "j + s \<le> j'"
proof -
  have "s dvd j' - j"
    using assms(1,2) by (simp add: mod_eq_dvd_iff_nat)
  moreover have "0 < j' - j"
    using assms(1,3) by simp
  ultimately have "s \<le> j' - j"
    by (rule dvd_imp_le)
  then show ?thesis using assms(1) by simp
qed

lemma stride_set:
  fixes j n s :: nat
  assumes "j < n"
  shows "{j'. j \<le> j' \<and> j' < n \<and> j' mod s = j mod s} =
         insert j {j'. j + s \<le> j' \<and> j' < n \<and> j' mod s = (j + s) mod s}"
  using assms by (auto dest: stride_next)

lemma set_loader_cols:
  "set (loader_cols g ggo i j) =
     {Stage (i, j') ((fst ggo + i) * snd (inBufRange g) + snd ggo + j') | j'.
        j \<le> j' \<and> j' < snd (scratchpadRange g) \<and> j' mod 8 = j mod 8}"
proof (induction g ggo i j rule: loader_cols.induct)
  case (1 g ggo i j)
  let ?E = "\<lambda>j'. Stage (i, j') ((fst ggo + i) * snd (inBufRange g) + snd ggo + j')"
  let ?n = "snd (scratchpadRange g)"
  show ?case
  proof (cases "j < ?n")
    case True
    have unf: "loader_cols g ggo i j = ?E j # loader_cols g ggo i (j + 8)"
      using True by (subst loader_cols.simps) (simp add: localRange_def)
    have ih: "set (loader_cols g ggo i (j + 8)) =
                ?E ` {j'. j + 8 \<le> j' \<and> j' < ?n \<and> j' mod 8 = (j + 8) mod 8}"
      using "1.IH" True by (auto simp: localRange_def)
    have "set (loader_cols g ggo i j) = ?E ` {j'. j \<le> j' \<and> j' < ?n \<and> j' mod 8 = j mod 8}"
      unfolding unf stride_set[OF True] using ih by simp
    then show ?thesis by auto
  next
    case False
    then show ?thesis by (subst loader_cols.simps) auto
  qed
qed

lemma set_loader_rows:
  "set (loader_rows g ggo lid i) =
     {Stage (i', j') ((fst ggo + i') * snd (inBufRange g) + snd ggo + j') | i' j'.
        i \<le> i' \<and> i' < fst (scratchpadRange g) \<and> i' mod 8 = i mod 8 \<and>
        snd lid \<le> j' \<and> j' < snd (scratchpadRange g) \<and> j' mod 8 = snd lid mod 8}"
proof (induction g ggo lid i rule: loader_rows.induct)
  case (1 g ggo lid i)
  let ?E = "\<lambda>(i', j'). Stage (i', j') ((fst ggo + i') * snd (inBufRange g) + snd ggo + j')"
  let ?n = "fst (scratchpadRange g)"
  let ?J = "{j'. snd lid \<le> j' \<and> j' < snd (scratchpadRange g) \<and> j' mod 8 = snd lid mod 8}"
  show ?case
  proof (cases "i < ?n")
    case True
    have unf: "loader_rows g ggo lid i =
                 loader_cols g ggo i (snd lid) @ loader_rows g ggo lid (i + 8)"
      using True by (subst loader_rows.simps) (simp add: localRange_def)
    have ih: "set (loader_rows g ggo lid (i + 8)) =
                ?E ` ({i'. i + 8 \<le> i' \<and> i' < ?n \<and> i' mod 8 = (i + 8) mod 8} \<times> ?J)"
      using "1.IH" True by (auto simp: localRange_def)
    have cols: "set (loader_cols g ggo i (snd lid)) = ?E ` ({i} \<times> ?J)"
      by (auto simp: set_loader_cols)
    have "set (loader_rows g ggo lid i) =
            ?E ` ({i'. i \<le> i' \<and> i' < ?n \<and> i' mod 8 = i mod 8} \<times> ?J)"
      unfolding unf stride_set[OF True] set_append ih cols image_Un [symmetric]
      by (rule arg_cong [where f = "\<lambda>S. ?E ` S"]) blast
    then show ?thesis by auto
  next
    case False
    then show ?thesis by (subst loader_rows.simps) auto
  qed
qed

section \<open>One work-item on its own\<close>

lemma mod8_ge: "i mod 8 = l \<Longrightarrow> l \<le> (i::nat)"
  by (metis mod_less_eq_dividend)

lemma set_tile_loader:
  assumes "fst (local_id it) < 8" "snd (local_id it) < 8"
  shows "set (tile_loader g it) =
     {Stage (i, j) ((fst (globalGroupOffset it) + i) * snd (inBufRange g)
                      + snd (globalGroupOffset it) + j) | i j.
        in_range (i, j) (scratchpadRange g) \<and> i mod 8 = fst (local_id it) \<and> j mod 8 = snd (local_id it)}"
  unfolding tile_loader_def set_loader_rows in_range_def
  using assms by (auto dest: mod8_ge)

lemma tile_loader_all_stage:
  "e \<in> set (tile_loader g it) \<Longrightarrow> \<exists>cell k. e = Stage cell k"
  unfolding tile_loader_def set_loader_rows by blast

lemma set_group_items:
  "set (group_items grp) = {it. group_id it = grp \<and> fst (local_id it) < 8 \<and> snd (local_id it) < 8}"
  unfolding group_items_def localRange_def
  apply (auto simp: image_iff)
  subgoal for it by (cases it) auto
  done

lemma set_nd_items:
  "set (nd_items g) = {it. in_range (group_id it) (group_range g) \<and>
       fst (local_id it) < 8 \<and> snd (local_id it) < 8}"
  unfolding nd_items_def nd_groups_def by (auto simp: set_group_items in_range_def mem_Times_iff)

lemma group_items_subset:
  "it \<in> set (nd_items g) \<Longrightarrow> it' \<in> set (group_items (group_id it)) \<Longrightarrow> it' \<in> set (nd_items g)"
  by (simp add: set_nd_items set_group_items)

lemma self_in_group:
  "it \<in> set (nd_items g) \<Longrightarrow> it \<in> set (group_items (group_id it))"
  by (simp add: set_nd_items set_group_items)


lemma exec_seq_append:
  "exec_seq g inDev filterDev it (es @ es') c =
     (case exec_seq g inDev filterDev it es c of
        Inl err \<Rightarrow> Inl err
      | Inr c' \<Rightarrow> exec_seq g inDev filterDev it es' c')"
  by (induction es arbitrary: c) (auto split: sum.splits)

text \<open>Staging a list of cells, each from the index \<open>f\<close> gives for it.\<close>

lemma exec_seq_stage:
  assumes "\<forall>cell \<in> set cells. f cell < length inDev \<and> in_range cell (scratchpadRange g)"
  shows "exec_seq g inDev filterDev it (map (\<lambda>cell. Stage cell (f cell)) cells) c =
           Inr (c\<lparr>scratch := (scratch c)(group_id it :=
                  (\<lambda>cell. if cell \<in> set cells then Some (inDev ! f cell)
                           else scratch c (group_id it) cell))\<rparr>)"
  using assms
proof (induction cells arbitrary: c)
  case Nil
  then show ?case by simp
next
  case (Cons a cells)
  let ?c' = "c\<lparr>scratch := (scratch c)
                 (group_id it := (scratch c (group_id it))(a \<mapsto> inDev ! f a))\<rparr>"
  have step: "exec_event g inDev filterDev it (Stage a (f a)) c = Inr ?c'"
    using Cons.prems by simp
  have rest: "exec_seq g inDev filterDev it (map (\<lambda>cell. Stage cell (f cell)) cells) ?c' =
           Inr (?c'\<lparr>scratch := (scratch ?c')(group_id it :=
                  (\<lambda>cell. if cell \<in> set cells then Some (inDev ! f cell)
                           else scratch ?c' (group_id it) cell))\<rparr>)"
    by (rule Cons.IH) (use Cons.prems in simp)
  have fn: "(scratch ?c')(group_id it :=
                  (\<lambda>cell. if cell \<in> set cells then Some (inDev ! f cell)
                           else scratch ?c' (group_id it) cell)) =
            (scratch c)(group_id it :=
                  (\<lambda>cell. if cell \<in> set (a # cells) then Some (inDev ! f cell)
                           else scratch c (group_id it) cell))"
    by (auto simp: fun_eq_iff)
  show ?case
    by (simp only: list.map exec_seq.simps step sum.case rest fn config.update_convs
          config.simps)
       (simp add: fun_upd_def)
qed

text \<open>Accumulating over a list of filter positions.\<close>

lemma exec_seq_mulacc:
  assumes "\<forall>p \<in> set ps. in_range (cellf p) (scratchpadRange g) \<and> kf p < length filterDev \<and>
             scratch c (group_id it) (cellf p) \<noteq> None"
  shows "exec_seq g inDev filterDev it (map (\<lambda>p. MulAcc (cellf p) (kf p)) ps) c =
           Inr (c\<lparr>priv_sum := (priv_sum c)(it :=
                  foldl (\<lambda>s p. f4_add s (f4_mul (the (scratch c (group_id it) (cellf p)))
                                                 (filterDev ! kf p)))
                        (priv_sum c it) ps)\<rparr>)"
  using assms
proof (induction ps arbitrary: c)
  case Nil
  then show ?case by simp
next
  case (Cons p ps)
  then obtain v where v: "scratch c (group_id it) (cellf p) = Some v"
    by auto
  let ?F = "\<lambda>s p. f4_add s (f4_mul (the (scratch c (group_id it) (cellf p))) (filterDev ! kf p))"
  let ?c' = "c\<lparr>priv_sum := (priv_sum c)(it := ?F (priv_sum c it) p)\<rparr>"
  have step: "exec_event g inDev filterDev it (MulAcc (cellf p) (kf p)) c = Inr ?c'"
    using Cons.prems v by simp
  have rest: "exec_seq g inDev filterDev it (map (\<lambda>p. MulAcc (cellf p) (kf p)) ps) ?c' =
          Inr (?c'\<lparr>priv_sum := (priv_sum ?c')(it :=
                  foldl (\<lambda>s p. f4_add s (f4_mul (the (scratch ?c' (group_id it) (cellf p)))
                                                 (filterDev ! kf p)))
                        (priv_sum ?c' it) ps)\<rparr>)"
    by (rule Cons.IH) (use Cons.prems in simp)
  have fn: "(priv_sum ?c')(it :=
                  foldl (\<lambda>s p. f4_add s (f4_mul (the (scratch ?c' (group_id it) (cellf p)))
                                                 (filterDev ! kf p)))
                        (priv_sum ?c' it) ps) =
            (priv_sum c)(it := foldl ?F (priv_sum c it) (p # ps))"
    by (auto simp: fun_eq_iff)
  show ?case
    by (simp only: list.map exec_seq.simps step sum.case rest fn config.update_convs
          config.simps)
       (simp add: fun_upd_def)
qed


lemma idx_bound:
  fixes a b m n :: nat
  assumes "a < m" "b < n"
  shows "a * n + b < m * n"
proof -
  have "a * n + b < Suc a * n" using assms(2) by simp
  also have "\<dots> \<le> m * n" using assms(1) by (intro mult_le_mono1) simp
  finally show ?thesis .
qed

lemma idx_div:
  fixes a b n :: nat
  assumes "b < n"
  shows "(a * n + b) div n = a" "(a * n + b) mod n = b"
  using assms by simp_all

lemma idx_inj:
  fixes a b a' b' n :: nat
  assumes "a * n + b = a' * n + b'" "b < n" "b' < n"
  shows "a = a' \<and> b = b'"
  using idx_div [of b n a] idx_div [of b' n a'] assms by metis

lemma group_inside:
  fixes G H :: nat
  assumes "G < H div 8"
  shows "G * 8 + 8 \<le> H"
proof -
  have "Suc G * 8 \<le> (H div 8) * 8"
    using assms by (intro mult_le_mono1) simp
  also have "\<dots> \<le> H" by simp
  finally show ?thesis by simp
qed

lemma item_bounds:
  assumes "it \<in> set (nd_items g)"
  shows "fst (local_id it) < 8" "snd (local_id it) < 8"
    "fst (globalGroupOffset it) + 8 \<le> inputImgHeight g"
    "snd (globalGroupOffset it) + 8 \<le> inputImgWidth g"
    "fst (get_global_id it) < inputImgHeight g"
    "snd (get_global_id it) < inputImgWidth g"
proof -
  from assms have l: "fst (local_id it) < 8" "snd (local_id it) < 8"
    and G: "fst (group_id it) < inputImgHeight g div 8" "snd (group_id it) < inputImgWidth g div 8"
    by (simp_all add: set_nd_items in_range_def group_range_def globalRange_def localRange_def)
  show "fst (local_id it) < 8" "snd (local_id it) < 8" by fact+
  show a: "fst (globalGroupOffset it) + 8 \<le> inputImgHeight g"
    using group_inside [OF G(1)] by (simp add: globalGroupOffset_def localRange_def)
  show b: "snd (globalGroupOffset it) + 8 \<le> inputImgWidth g"
    using group_inside [OF G(2)] by (simp add: globalGroupOffset_def localRange_def)
  show "fst (get_global_id it) < inputImgHeight g"
    using a l by (simp add: globalGroupOffset_def get_global_id_def localRange_def)
  show "snd (get_global_id it) < inputImgWidth g"
    using b l by (simp add: globalGroupOffset_def get_global_id_def localRange_def)
qed

lemma out_index_bound:
  assumes "it \<in> set (nd_items g)"
  shows "out_index g it < inputImgHeight g * inputImgWidth g"
  unfolding out_index_def outBufRange_def snd_conv
  using item_bounds(5,6) [OF assms] by (rule idx_bound)

lemma in_index_bound:
  assumes "it \<in> set (nd_items g)" "in_range (i, j) (scratchpadRange g)"
  shows "(fst (globalGroupOffset it) + i) * snd (inBufRange g) + snd (globalGroupOffset it) + j
           < range_size (inBufRange g)"
proof -
  have i: "fst (globalGroupOffset it) + i < fst (inBufRange g)"
    using item_bounds(3) [OF assms(1)] assms(2)
    by (simp add: in_range_def scratchpadRange_def inBufRange_def localRange_def)
  have j: "snd (globalGroupOffset it) + j < snd (inBufRange g)"
    using item_bounds(4) [OF assms(1)] assms(2)
    by (simp add: in_range_def scratchpadRange_def inBufRange_def localRange_def)
  show ?thesis
    using idx_bound [OF i j] by (simp add: range_size_def add.assoc)
qed

lemma get_global_id_inj:
  assumes "get_global_id it = get_global_id it'"
    "fst (local_id it) < 8" "snd (local_id it) < 8"
    "fst (local_id it') < 8" "snd (local_id it') < 8"
  shows "it = it'"
proof -
  have 1: "fst (group_id it) * 8 + fst (local_id it) = fst (group_id it') * 8 + fst (local_id it')"
    and 2: "snd (group_id it) * 8 + snd (local_id it) = snd (group_id it') * 8 + snd (local_id it')"
    using assms(1) by (simp_all add: get_global_id_def localRange_def)
  from idx_inj [OF 1 assms(2,4)] idx_inj [OF 2 assms(3,5)]
  have "group_id it = group_id it'" "local_id it = local_id it'"
    by (simp_all add: prod_eq_iff)
  then show ?thesis by simp
qed

lemma out_index_inj:
  assumes "it \<in> set (nd_items g)" "it' \<in> set (nd_items g)" "out_index g it = out_index g it'"
  shows "it = it'"
proof -
  have "fst (get_global_id it) = fst (get_global_id it') \<and>
        snd (get_global_id it) = snd (get_global_id it')"
    using assms(3) item_bounds(6) [OF assms(1)] item_bounds(6) [OF assms(2)]
    unfolding out_index_def outBufRange_def snd_conv by (rule idx_inj)
  then have "get_global_id it = get_global_id it'"
    by (simp add: prod_eq_iff)
  then show ?thesis
    using item_bounds(1,2) [OF assms(1)] item_bounds(1,2) [OF assms(2)]
    by (rule get_global_id_inj)
qed

lemma out_index_surj:
  assumes "8 dvd inputImgHeight g" "8 dvd inputImgWidth g"
    "k < inputImgHeight g * inputImgWidth g"
  shows "\<exists>it \<in> set (nd_items g). out_index g it = k"
proof -
  let ?H = "inputImgHeight g" and ?W = "inputImgWidth g"
  let ?y = "k div ?W" and ?x = "k mod ?W"
  let ?it = "\<lparr>group_id = (?y div 8, ?x div 8), local_id = (?y mod 8, ?x mod 8)\<rparr>"
  have W: "0 < ?W" using assms(3) by (cases "?W = 0") auto
  have y: "?y < ?H" using assms(3) W by (simp add: less_mult_imp_div_less)
  have x: "?x < ?W" using W by simp
  have "?y div 8 < ?H div 8"
    using y assms(1) by (metis dvd_div_mult_self div_less_iff_less_mult zero_less_numeral
         less_mult_imp_div_less)
  moreover have "?x div 8 < ?W div 8"
    using x assms(2) by (metis dvd_div_mult_self div_less_iff_less_mult zero_less_numeral
         less_mult_imp_div_less)
  ultimately have "?it \<in> set (nd_items g)"
    by (simp add: set_nd_items in_range_def group_range_def globalRange_def localRange_def)
  moreover have "out_index g ?it = k"
    by (simp add: out_index_def get_global_id_def outBufRange_def localRange_def)
  ultimately show ?thesis by blast
qed

lemma fw_halo: "(w::nat) \<le> (w div 2) * 2 + 1"
  by simp


lemma stage_list:
  assumes "\<forall>e \<in> set es. \<exists>cell. e = Stage cell (f cell)"
  shows "es = map (\<lambda>cell. Stage cell (f cell)) (map (\<lambda>e. case e of Stage cell k \<Rightarrow> cell) es)"
  using assms by (induction es) auto

lemma strided_iff:
  fixes i l :: nat
  assumes "l < 8"
  shows "(\<exists>m. i = l + 8 * m) = (i mod 8 = l)"
proof
  assume "\<exists>m. i = l + 8 * m"
  then show "i mod 8 = l" using assms by auto
next
  assume "i mod 8 = l"
  then have "i = l + 8 * (i div 8)" by (metis add.commute mult_div_mod_eq)
  then show "\<exists>m. i = l + 8 * m" ..
qed

text \<open>
  Claim C3. A work-item of the dispatch that runs its tile loader leaves in the scratch tile
  of its group, at every cell \<open>(i, j)\<close> with \<open>i\<close> in \<open>localId[0], localId[0] + 8, \<dots>\<close> and
  \<open>j\<close> in \<open>localId[1], localId[1] + 8, \<dots>\<close> below the extent \<open>localRange + 2 * halo\<close>, the
  input element at index \<open>(globalGroupOffset[0] + i) * paddedWidth + globalGroupOffset[1] + j\<close>,
  and leaves every other cell as it was. Every cell of the tile is staged, from that index,
  by some work-item of the group.
\<close>

theorem tile_loader_stages_strided_cells:
  assumes "it \<in> set (nd_items g)" and "length inDev = range_size (inBufRange g)"
  shows "exec_seq g inDev filterDev it (tile_loader g it) c =
           Inr (c\<lparr>scratch := (scratch c)(group_id it := (\<lambda>(i, j).
                  if (\<exists>m n. i = fst (local_id it) + 8 * m \<and> j = snd (local_id it) + 8 * n) \<and>
                     i < fst (scratchpadRange g) \<and> j < snd (scratchpadRange g)
                  then Some (inDev ! ((fst (globalGroupOffset it) + i) * snd (inBufRange g)
                                        + snd (globalGroupOffset it) + j))
                  else scratch c (group_id it) (i, j)))\<rparr>)
         \<and> (\<forall>i j. i < fst (scratchpadRange g) \<and> j < snd (scratchpadRange g) \<longrightarrow>
               (\<exists>it' \<in> set (group_items (group_id it)).
                  Stage (i, j) ((fst (globalGroupOffset it) + i) * snd (inBufRange g)
                                  + snd (globalGroupOffset it) + j) \<in> set (tile_loader g it')))"
proof
  let ?f = "\<lambda>cell. (fst (globalGroupOffset it) + fst cell) * snd (inBufRange g)
                      + snd (globalGroupOffset it) + snd cell"
  let ?cells = "map (\<lambda>e. case e of Stage cell k \<Rightarrow> cell) (tile_loader g it)"
  note l = item_bounds(1,2) [OF assms(1)]
  have set_tl: "set (tile_loader g it) =
      {Stage (i, j) (?f (i, j)) | i j.
         in_range (i, j) (scratchpadRange g) \<and> i mod 8 = fst (local_id it) \<and> j mod 8 = snd (local_id it)}"
    using set_tile_loader [OF l, of g] by simp
  have "\<forall>e \<in> set (tile_loader g it). \<exists>cell. e = Stage cell (?f cell)"
    unfolding set_tl by auto
  then have tl: "tile_loader g it = map (\<lambda>cell. Stage cell (?f cell)) ?cells"
    by (rule stage_list)
  have set_cells: "set ?cells =
      {(i, j). in_range (i, j) (scratchpadRange g) \<and> i mod 8 = fst (local_id it) \<and> j mod 8 = snd (local_id it)}"
  proof -
    have "set (tile_loader g it) = (\<lambda>cell. Stage cell (?f cell)) `
       {(i, j). in_range (i, j) (scratchpadRange g) \<and> i mod 8 = fst (local_id it) \<and> j mod 8 = snd (local_id it)}"
      unfolding set_tl by force
    then show ?thesis
      unfolding set_map by (simp add: image_image)
  qed
  have ok: "\<forall>cell \<in> set ?cells. ?f cell < length inDev \<and> in_range cell (scratchpadRange g)"
    unfolding set_cells using in_index_bound [OF assms(1)] assms(2) by auto
  have fn: "(\<lambda>cell. if cell \<in> set ?cells then Some (inDev ! ?f cell)
                     else scratch c (group_id it) cell) =
            (\<lambda>(i, j).
                  if (\<exists>m n. i = fst (local_id it) + 8 * m \<and> j = snd (local_id it) + 8 * n) \<and>
                     i < fst (scratchpadRange g) \<and> j < snd (scratchpadRange g)
                  then Some (inDev ! ((fst (globalGroupOffset it) + i) * snd (inBufRange g)
                                        + snd (globalGroupOffset it) + j))
                  else scratch c (group_id it) (i, j))"
    unfolding set_cells
    using strided_iff [OF l(1)] strided_iff [OF l(2)]
    by (auto simp: fun_eq_iff in_range_def)
  show "exec_seq g inDev filterDev it (tile_loader g it) c =
           Inr (c\<lparr>scratch := (scratch c)(group_id it := (\<lambda>(i, j).
                  if (\<exists>m n. i = fst (local_id it) + 8 * m \<and> j = snd (local_id it) + 8 * n) \<and>
                     i < fst (scratchpadRange g) \<and> j < snd (scratchpadRange g)
                  then Some (inDev ! ((fst (globalGroupOffset it) + i) * snd (inBufRange g)
                                        + snd (globalGroupOffset it) + j))
                  else scratch c (group_id it) (i, j)))\<rparr>)"
    by (subst tl) (simp only: exec_seq_stage [OF ok] fn)
  show "\<forall>i j. i < fst (scratchpadRange g) \<and> j < snd (scratchpadRange g) \<longrightarrow>
               (\<exists>it' \<in> set (group_items (group_id it)).
                  Stage (i, j) ((fst (globalGroupOffset it) + i) * snd (inBufRange g)
                                  + snd (globalGroupOffset it) + j) \<in> set (tile_loader g it'))"
  proof (intro allI impI)
    fix i j
    assume ij: "i < fst (scratchpadRange g) \<and> j < snd (scratchpadRange g)"
    let ?it' = "\<lparr>group_id = group_id it, local_id = (i mod 8, j mod 8)\<rparr>"
    have mem: "?it' \<in> set (group_items (group_id it))"
      by (simp add: set_group_items)
    have "Stage (i, j) ((fst (globalGroupOffset ?it') + i) * snd (inBufRange g)
                                  + snd (globalGroupOffset ?it') + j) \<in> set (tile_loader g ?it')"
      using ij by (subst set_tile_loader) (auto simp: in_range_def)
    then have "Stage (i, j) ((fst (globalGroupOffset it) + i) * snd (inBufRange g)
                                  + snd (globalGroupOffset it) + j) \<in> set (tile_loader g ?it')"
      by (simp add: globalGroupOffset_def)
    with mem show "\<exists>it' \<in> set (group_items (group_id it)).
                  Stage (i, j) ((fst (globalGroupOffset it) + i) * snd (inBufRange g)
                                  + snd (globalGroupOffset it) + j) \<in> set (tile_loader g it')"
      by blast
  qed
qed


lemma window_in_range:
  assumes "fst lid < 8" "snd lid < 8" "r < filterWidth g" "c < filterWidth g"
    "halo g = half_width (filterWidth g)"
  shows "in_range (fst lid + r, snd lid + c) (scratchpadRange g)"
  using assms fw_halo [of "filterWidth g"]
  by (simp add: in_range_def scratchpadRange_def localRange_def half_width_def)

text \<open>
  Claim C2. On a scratch tile that is written at every cell, the convolution evaluator of a
  work-item starts from the zero vector, goes through the filter positions \<open>(r, c)\<close> in
  row-major order, adds \<open>scratch[localId + (r, c)] * filter[r][c]\<close> each time (multiplied
  component by component), and stores the sum in the output buffer at its global id; it
  performs no undefined access.
\<close>

theorem conv_evaluator_row_major:
  assumes "it \<in> set (nd_items g)"
    and "halo g = half_width (filterWidth g)"
    and "length filterDev = range_size (filterRange g)"
    and "length (outDev c) = range_size (outBufRange g)"
    and "\<forall>cell. in_range cell (scratchpadRange g) \<longrightarrow> scratch c (group_id it) cell \<noteq> None"
  shows "exec_seq g inDev filterDev it (conv_evaluator g it) c =
           Inr (c\<lparr>priv_sum := (priv_sum c)(it :=
                    foldl (\<lambda>s (r, c'). f4_add s
                             (f4_mul (the (scratch c (group_id it)
                                        (fst (local_id it) + r, snd (local_id it) + c')))
                                     (filterDev ! (r * filterWidth g + c'))))
                      f4_zero (List.product [0..<filterWidth g] [0..<filterWidth g])),
                  outDev := (outDev c)
                    [fst (get_global_id it) * inputImgWidth g + snd (get_global_id it) :=
                    foldl (\<lambda>s (r, c'). f4_add s
                             (f4_mul (the (scratch c (group_id it)
                                        (fst (local_id it) + r, snd (local_id it) + c')))
                                     (filterDev ! (r * filterWidth g + c'))))
                      f4_zero (List.product [0..<filterWidth g] [0..<filterWidth g])]\<rparr>)"
proof -
  let ?ps = "List.product [0..<filterWidth g] [0..<filterWidth g]"
  let ?cellf = "\<lambda>(r, c'). (fst (local_id it) + r, snd (local_id it) + c')"
  let ?kf = "\<lambda>(r, c'). r * filterWidth g + c'"
  let ?c0 = "c\<lparr>priv_sum := (priv_sum c)(it := f4_zero)\<rparr>"
  let ?F = "\<lambda>s p. f4_add s (f4_mul (the (scratch c (group_id it) (?cellf p))) (filterDev ! ?kf p))"
  let ?S = "foldl ?F f4_zero ?ps"
  let ?c1 = "?c0\<lparr>priv_sum := (priv_sum ?c0)(it := ?S)\<rparr>"
  note l = item_bounds(1,2) [OF assms(1)]
  have rows: "conv_rows g (local_id it) 0 = map (\<lambda>p. MulAcc (?cellf p) (?kf p)) ?ps"
    unfolding conv_rows_product by (rule map_cong) auto
  have ok: "\<forall>p \<in> set ?ps. in_range (?cellf p) (scratchpadRange g) \<and> ?kf p < length filterDev \<and>
             scratch ?c0 (group_id it) (?cellf p) \<noteq> None"
  proof
    fix p assume "p \<in> set ?ps"
    then obtain r c' where p: "p = (r, c')" and rc: "r < filterWidth g" "c' < filterWidth g"
      by auto
    have "in_range (?cellf p) (scratchpadRange g)"
      unfolding p using window_in_range [OF l rc assms(2)] by simp
    moreover have "?kf p < length filterDev"
      unfolding p using idx_bound [OF rc] assms(3) by (simp add: range_size_def filterRange_def)
    ultimately show "in_range (?cellf p) (scratchpadRange g) \<and> ?kf p < length filterDev \<and>
             scratch ?c0 (group_id it) (?cellf p) \<noteq> None"
      using assms(5) unfolding p by simp
  qed
  have init: "exec_event g inDev filterDev it SumInit c = Inr ?c0"
    by simp
  have acc: "exec_seq g inDev filterDev it (conv_rows g (local_id it) 0) ?c0 = Inr ?c1"
    unfolding rows using exec_seq_mulacc [OF ok, of inDev] by simp
  have store: "exec_event g inDev filterDev it (Store (out_index g it)) ?c1 =
      Inr (?c1\<lparr>outDev := (outDev ?c1)[out_index g it := priv_sum ?c1 it]\<rparr>)"
    using out_index_bound [OF assms(1)] assms(4)
    by (simp add: range_size_def outBufRange_def)
  have fin: "?c1\<lparr>outDev := (outDev ?c1)[out_index g it := priv_sum ?c1 it]\<rparr> =
      c\<lparr>priv_sum := (priv_sum c)(it := ?S),
        outDev := (outDev c)[fst (get_global_id it) * inputImgWidth g + snd (get_global_id it) := ?S]\<rparr>"
    by (simp add: out_index_def outBufRange_def)
  have "exec_seq g inDev filterDev it (conv_evaluator g it) c =
      Inr (?c1\<lparr>outDev := (outDev ?c1)[out_index g it := priv_sum ?c1 it]\<rparr>)"
    unfolding conv_evaluator_def
    by (simp only: exec_seq.simps init sum.case exec_seq_append acc store)
  then show ?thesis
    unfolding fin by (simp add: case_prod_unfold)
qed


lemma filter_store_tile_loader:
  "filter (\<lambda>e. case e of Store k \<Rightarrow> True | _ \<Rightarrow> False) (tile_loader g it) = []"
  by (auto simp: filter_empty_conv dest: tile_loader_all_stage)

lemma filter_store_conv_rows:
  "filter (\<lambda>e. case e of Store k \<Rightarrow> True | _ \<Rightarrow> False) (conv_rows g lid 0) = []"
  by (auto simp: filter_empty_conv conv_rows_product)

text \<open>
  Claim C6. Two different work-items of a dispatch write different cells of the output
  buffer; the one store of a work-item goes to \<open>globalId[0] * outputWidth + globalId[1]\<close>;
  and when both image dimensions are multiples of 8, every output cell is the target of
  exactly one work-item.
\<close>

theorem output_ownership_disjoint:
  "(\<forall>it \<in> set (nd_items g). \<forall>it' \<in> set (nd_items g).
      it \<noteq> it' \<longrightarrow> out_index g it \<noteq> out_index g it')
   \<and> (\<forall>it. filter (\<lambda>e. case e of Store k \<Rightarrow> True | _ \<Rightarrow> False) (kernel_item g it)
             = [Store (fst (get_global_id it) * inputImgWidth g + snd (get_global_id it))])
   \<and> (8 dvd inputImgHeight g \<and> 8 dvd inputImgWidth g \<longrightarrow>
        (\<forall>k < inputImgHeight g * inputImgWidth g.
           \<exists>!it. it \<in> set (nd_items g) \<and> out_index g it = k))"
proof (intro conjI ballI allI impI)
  fix it it'
  assume "it \<in> set (nd_items g)" "it' \<in> set (nd_items g)" "it \<noteq> it'"
  then show "out_index g it \<noteq> out_index g it'"
    using out_index_inj by blast
next
  fix it
  show "filter (\<lambda>e. case e of Store k \<Rightarrow> True | _ \<Rightarrow> False) (kernel_item g it)
             = [Store (fst (get_global_id it) * inputImgWidth g + snd (get_global_id it))]"
    by (simp add: kernel_item_def conv_evaluator_def filter_store_tile_loader filter_store_conv_rows
          out_index_def outBufRange_def)
next
  fix k
  assume div: "8 dvd inputImgHeight g \<and> 8 dvd inputImgWidth g"
    and k: "k < inputImgHeight g * inputImgWidth g"
  from out_index_surj [of g k] div k
  obtain it where "it \<in> set (nd_items g)" "out_index g it = k"
    by blast
  then show "\<exists>!it. it \<in> set (nd_items g) \<and> out_index g it = k"
    using out_index_inj by (intro ex1I [of _ it]) auto
qed

lemma demo_item_in: "demo_item \<in> set (nd_items demo_geom)"
  by (simp add: set_nd_items demo_item_def demo_geom_def in_range_def group_range_def
        globalRange_def localRange_def)

lemma demo_item'_in: "demo_item' \<in> set (nd_items demo_geom)"
  by (simp add: set_nd_items demo_item'_def demo_geom_def in_range_def group_range_def
        globalRange_def localRange_def)

theorem output_ownership_disjoint_witness:
  "demo_item \<in> set (nd_items demo_geom) \<and> demo_item' \<in> set (nd_items demo_geom) \<and>
   demo_item \<noteq> demo_item' \<and> out_index demo_geom demo_item \<noteq> out_index demo_geom demo_item' \<and>
   8 dvd inputImgHeight demo_geom \<and> 8 dvd inputImgWidth demo_geom \<and>
   (10::nat) < inputImgHeight demo_geom * inputImgWidth demo_geom \<and>
   (\<exists>!it. it \<in> set (nd_items demo_geom) \<and> out_index demo_geom it = 10)"
proof -
  have ne: "demo_item \<noteq> demo_item'"
    by (simp add: demo_item_def demo_item'_def)
  have dv: "8 dvd inputImgHeight demo_geom \<and> 8 dvd inputImgWidth demo_geom"
    by (simp add: demo_geom_def)
  have k: "(10::nat) < inputImgHeight demo_geom * inputImgWidth demo_geom"
    by (simp add: demo_geom_def)
  show ?thesis
    using output_ownership_disjoint [of demo_geom] demo_item_in demo_item'_in ne dv k by blast
qed

theorem tile_loader_stages_strided_cells_witness:
  "demo_item \<in> set (nd_items demo_geom) \<and>
   length demo_input = range_size (inBufRange demo_geom) \<and>
   (\<exists>c'. exec_seq demo_geom demo_input demo_filter demo_item
            (tile_loader demo_geom demo_item) demo_config = Inr c' \<and>
         scratch c' (0, 0) (9, 2) = Some (Float4 92 0 0 1) \<and>
         scratch c' (0, 0) (9, 3) = None)"
proof -
  define F where "F = (\<lambda>(i, j).
      if (\<exists>m n. i = fst (local_id demo_item) + 8 * m \<and> j = snd (local_id demo_item) + 8 * n) \<and>
         i < fst (scratchpadRange demo_geom) \<and> j < snd (scratchpadRange demo_geom)
      then Some (demo_input ! ((fst (globalGroupOffset demo_item) + i) * snd (inBufRange demo_geom)
                                 + snd (globalGroupOffset demo_item) + j))
      else scratch demo_config (group_id demo_item) (i, j))"
  have len: "length demo_input = range_size (inBufRange demo_geom)"
    by (simp add: demo_input_def demo_geom_def range_size_def inBufRange_def)
  have run: "exec_seq demo_geom demo_input demo_filter demo_item
               (tile_loader demo_geom demo_item) demo_config =
             Inr (demo_config\<lparr>scratch := (scratch demo_config)(group_id demo_item := F)\<rparr>)"
    unfolding F_def
    by (rule tile_loader_stages_strided_cells [OF demo_item_in len, of demo_filter demo_config, THEN conjunct1])
  have grp: "group_id demo_item = (0, 0)"
    by (simp add: demo_item_def)
  have ex: "\<exists>m n. (9::nat) = fst (local_id demo_item) + 8 * m \<and>
                  (2::nat) = snd (local_id demo_item) + 8 * n"
    by (intro exI [of _ 1] exI [of _ 0]) (simp add: demo_item_def)
  have nex: "\<not> (\<exists>m n. (9::nat) = fst (local_id demo_item) + 8 * m \<and>
                  (3::nat) = snd (local_id demo_item) + 8 * n)"
    by (simp add: demo_item_def)
  have ext: "scratchpadRange demo_geom = (10, 10)"
    by (simp add: scratchpadRange_def demo_geom_def localRange_def)
  have idx: "(fst (globalGroupOffset demo_item) + 9) * snd (inBufRange demo_geom)
               + snd (globalGroupOffset demo_item) + 2 = 92"
    by (simp add: globalGroupOffset_def demo_item_def inBufRange_def demo_geom_def)
  have v: "demo_input ! 92 = Float4 92 0 0 1"
    by (simp add: demo_input_def)
  have F92: "F (9, 2) = Some (Float4 92 0 0 1)"
    unfolding F_def split_conv using ex by (simp only: ext idx v) simp
  have F93: "F (9, 3) = None"
  proof -
    have "\<not> ((\<exists>m n. (9::nat) = fst (local_id demo_item) + 8 * m \<and>
                  (3::nat) = snd (local_id demo_item) + 8 * n) \<and>
              (9::nat) < fst (scratchpadRange demo_geom) \<and> (3::nat) < snd (scratchpadRange demo_geom))"
      using nex by blast
    then show ?thesis
      unfolding F_def split_conv
      by (simp only: if_False) (simp add: demo_config_def init_config_def)
  qed
  show ?thesis
    using demo_item_in len run F92 F93 by (simp add: grp)
qed

theorem conv_evaluator_row_major_witness:
  "demo_item \<in> set (nd_items demo_geom) \<and>
   halo demo_geom = half_width (filterWidth demo_geom) \<and>
   length demo_filter = range_size (filterRange demo_geom) \<and>
   length (outDev demo_staged) = range_size (outBufRange demo_geom) \<and>
   (\<forall>cell. scratch demo_staged (group_id demo_item) cell \<noteq> None) \<and>
   (\<exists>c'. exec_seq demo_geom demo_input demo_filter demo_item
            (conv_evaluator demo_geom demo_item) demo_staged = Inr c' \<and>
         outDev c' = (replicate 64 f4_zero)[10 := Float4 207 0 0 9])"
proof -
  have h2: "halo demo_geom = half_width (filterWidth demo_geom)"
    by (simp add: demo_geom_def half_width_def)
  have h3: "length demo_filter = range_size (filterRange demo_geom)"
    by (simp add: demo_filter_def demo_geom_def range_size_def filterRange_def)
  have h4: "length (outDev demo_staged) = range_size (outBufRange demo_geom)"
    by (simp add: demo_staged_def demo_config_def init_config_def demo_geom_def range_size_def
          outBufRange_def)
  have h5: "\<forall>cell. in_range cell (scratchpadRange demo_geom) \<longrightarrow>
      scratch demo_staged (group_id demo_item) cell \<noteq> None"
    by (simp add: demo_staged_def)
  have S: "foldl (\<lambda>s (r, c'). f4_add s
                             (f4_mul (the (scratch demo_staged (group_id demo_item)
                                        (fst (local_id demo_item) + r, snd (local_id demo_item) + c')))
                                     (demo_filter ! (r * filterWidth demo_geom + c'))))
                      f4_zero (List.product [0..<filterWidth demo_geom] [0..<filterWidth demo_geom])
           = Float4 207 0 0 9"
    by code_simp
  have k: "fst (get_global_id demo_item) * inputImgWidth demo_geom + snd (get_global_id demo_item) = 10"
    by (simp add: get_global_id_def demo_item_def demo_geom_def localRange_def)
  have out: "outDev demo_staged = replicate 64 f4_zero"
    by (simp add: demo_staged_def demo_config_def init_config_def)
  have h5': "\<forall>cell. scratch demo_staged (group_id demo_item) cell \<noteq> None"
    by (simp add: demo_staged_def)
  show ?thesis
    using conv_evaluator_row_major [OF demo_item_in h2 h3 h4 h5, of demo_input] h2 h3 h4 h5' demo_item_in
    by (simp only: S k out) simp
qed


section \<open>Every interleaving keeps the invariant\<close>

lemma split_suffix:
  assumes "xs @ b # ys = done @ p"
  shows "(\<exists>us. p = us @ b # ys \<and> xs = done @ us) \<or> (\<exists>us. ys = us @ p)"
proof -
  from assms have "\<exists>us. (xs = done @ us \<and> us @ b # ys = p) \<or> (xs @ us = done \<and> b # ys = us @ p)"
    by (simp only: append_eq_append_conv2)
  then obtain us where "(xs = done @ us \<and> us @ b # ys = p) \<or> (xs @ us = done \<and> b # ys = us @ p)" ..
  then show ?thesis
  proof
    assume "xs = done @ us \<and> us @ b # ys = p"
    then show ?thesis by blast
  next
    assume a: "xs @ us = done \<and> b # ys = us @ p"
    show ?thesis
    proof (cases us)
      case Nil
      with a show ?thesis by auto
    next
      case (Cons u us')
      with a show ?thesis by auto
    qed
  qed
qed

lemma last_event:
  assumes "xs @ [a] = done @ a' # rest" "a' \<notin> set xs"
  shows "done = xs \<and> a' = a \<and> rest = []"
proof (cases rest rule: rev_cases)
  case Nil
  with assms(1) show ?thesis by simp
next
  case (snoc rest' z)
  with assms(1) have "xs @ [a] = (done @ a' # rest') @ [z]"
    by simp
  then have "xs = done @ a' # rest'"
    by (simp only: append1_eq_conv)
  with assms(2) show ?thesis by simp
qed

text \<open>The kernel: stages, the barrier, the initialisation, accumulations, the store.\<close>

lemma kernel_shape:
  "kernel_item g it = tile_loader g it @ GroupBarrier # SumInit # conv_rows g (local_id it) 0
                   @ [Store (out_index g it)]"
  by (simp add: kernel_item_def conv_evaluator_def)

lemma conv_rows_all_mulacc:
  "e \<in> set (conv_rows g lid 0) \<Longrightarrow> \<exists>cell k. e = MulAcc cell k"
  by (auto simp: conv_rows_product)

lemma stage_in_kernel:
  "Stage cell k \<in> set (kernel_item g it) \<longleftrightarrow> Stage cell k \<in> set (tile_loader g it)"
  by (auto simp: kernel_shape dest: conv_rows_all_mulacc)

lemma pending_cases:
  assumes "kernel_item g it = done @ p"
  shows "(\<exists>us. p = us @ GroupBarrier # conv_evaluator g it \<and> tile_loader g it = done @ us)
       \<or> (\<exists>us. conv_evaluator g it = us @ p)"
  using split_suffix [of "tile_loader g it" GroupBarrier "conv_evaluator g it" "done" p] assms
  by (simp add: kernel_item_def)

lemma evaluator_no_stage:
  "Stage cell k \<notin> set (conv_evaluator g it)"
  by (auto simp: conv_evaluator_def dest: conv_rows_all_mulacc)

lemma evaluator_no_barrier:
  "GroupBarrier \<notin> set (conv_evaluator g it)"
  by (auto simp: conv_evaluator_def dest: conv_rows_all_mulacc)

lemma arrived_no_stage:
  assumes "kernel_item g it = done @ p" "arrived p"
  shows "Stage cell k \<notin> set p"
proof -
  from pending_cases [OF assms(1)] show ?thesis
  proof (elim disjE exE conjE)
    fix us
    assume p: "p = us @ GroupBarrier # conv_evaluator g it" and tl: "tile_loader g it = done @ us"
    show ?thesis
    proof (cases us)
      case Nil
      with p show ?thesis by (simp add: evaluator_no_stage)
    next
      case (Cons u us')
      then have "u \<in> set (tile_loader g it)" using tl by simp
      then obtain cell' k' where "u = Stage cell' k'"
        using tile_loader_all_stage by blast
      with p Cons assms(2) show ?thesis
        by (simp add: arrived_def)
    qed
  next
    fix us
    assume "conv_evaluator g it = us @ p"
    then have "set p \<subseteq> set (conv_evaluator g it)" by auto
    then show ?thesis using evaluator_no_stage by blast
  qed
qed

lemma past_barrier:
  assumes "kernel_item g it = done @ e # rest" "e \<noteq> GroupBarrier" "\<forall>cell k. e \<noteq> Stage cell k"
  shows "GroupBarrier \<notin> set (e # rest)"
proof -
  from pending_cases [OF assms(1)] show ?thesis
  proof (elim disjE exE conjE)
    fix us
    assume p: "e # rest = us @ GroupBarrier # conv_evaluator g it"
      and tl: "tile_loader g it = done @ us"
    show ?thesis
    proof (cases us)
      case Nil
      with p assms(2) show ?thesis by simp
    next
      case (Cons u us')
      then have "e \<in> set (tile_loader g it)" using tl p by simp
      then show ?thesis
        using tile_loader_all_stage assms(3) by blast
    qed
  next
    fix us
    assume "conv_evaluator g it = us @ e # rest"
    then have "set (e # rest) \<subseteq> set (conv_evaluator g it)" by auto
    then show ?thesis using evaluator_no_barrier by blast
  qed
qed

lemma after_barrier:
  assumes "kernel_item g it = done @ GroupBarrier # rest"
  shows "GroupBarrier \<notin> set rest \<and> (\<forall>cell k. Stage cell k \<notin> set rest)"
proof -
  from pending_cases [OF assms(1)] show ?thesis
  proof (elim disjE exE conjE)
    fix us
    assume p: "GroupBarrier # rest = us @ GroupBarrier # conv_evaluator g it"
      and tl: "tile_loader g it = done @ us"
    show ?thesis
    proof (cases us)
      case Nil
      with p show ?thesis by (simp add: evaluator_no_stage evaluator_no_barrier)
    next
      case (Cons u us')
      then have "GroupBarrier \<in> set (tile_loader g it)" using tl p by simp
      then show ?thesis
        using tile_loader_all_stage by blast
    qed
  next
    fix us
    assume "conv_evaluator g it = us @ GroupBarrier # rest"
    then have "GroupBarrier \<in> set (conv_evaluator g it)" by auto
    then show ?thesis using evaluator_no_barrier by blast
  qed
qed

lemma store_is_last:
  assumes "kernel_item g it = done @ Store k # rest"
  shows "done = tile_loader g it @ GroupBarrier # SumInit # conv_rows g (local_id it) 0
         \<and> k = out_index g it \<and> rest = []"
proof -
  let ?xs = "tile_loader g it @ GroupBarrier # SumInit # conv_rows g (local_id it) 0"
  have eq: "?xs @ [Store (out_index g it)] = done @ Store k # rest"
    using assms by (simp add: kernel_shape)
  have "Store k \<notin> set (tile_loader g it)"
    using tile_loader_all_stage by blast
  moreover have "Store k \<notin> set (conv_rows g (local_id it) 0)"
    using conv_rows_all_mulacc by blast
  ultimately have notin: "Store k \<notin> set ?xs"
    by simp
  from last_event [OF eq notin] show ?thesis
    by simp
qed

lemma stage_facts:
  assumes "well_formed g inDev filterDev" "it \<in> set (nd_items g)"
    "Stage cell k \<in> set (tile_loader g it)"
  shows "in_range cell (scratchpadRange g)" "k < length inDev"
    "inDev ! k = tile g inDev (group_id it) cell"
    "fst cell mod 8 = fst (local_id it)" "snd cell mod 8 = snd (local_id it)"
proof -
  note l = item_bounds(1,2) [OF assms(2)]
  from assms(3) obtain i j where cell: "cell = (i, j)"
    and k: "k = (fst (globalGroupOffset it) + i) * snd (inBufRange g)
                 + snd (globalGroupOffset it) + j"
    and r: "in_range (i, j) (scratchpadRange g)"
    and m: "i mod 8 = fst (local_id it)" "j mod 8 = snd (local_id it)"
    unfolding set_tile_loader [OF l] by blast
  show "in_range cell (scratchpadRange g)" using r cell by simp
  show "k < length inDev"
    using in_index_bound [OF assms(2) r] assms(1) k by (simp add: well_formed_def)
  show "inDev ! k = tile g inDev (group_id it) cell"
    by (simp add: k cell tile_def globalGroupOffset_def)
  show "fst cell mod 8 = fst (local_id it)" "snd cell mod 8 = snd (local_id it)"
    using m cell by simp_all
qed

lemma cell_owner:
  assumes "it \<in> set (nd_items g)" "in_range cell (scratchpadRange g)"
  shows "\<exists>x \<in> set (group_items (group_id it)). \<exists>k. Stage cell k \<in> set (tile_loader g x)"
proof -
  obtain i j where cell: "cell = (i, j)" by (cases cell)
  let ?x = "\<lparr>group_id = group_id it, local_id = (i mod 8, j mod 8)\<rparr>"
  have "?x \<in> set (group_items (group_id it))"
    by (simp add: set_group_items)
  moreover have "Stage (i, j)
       ((fst (globalGroupOffset ?x) + i) * snd (inBufRange g)
          + snd (globalGroupOffset ?x) + j) \<in> set (tile_loader g ?x)"
    using assms(2) unfolding cell by (subst set_tile_loader) (auto simp: in_range_def)
  ultimately show ?thesis
    unfolding cell by blast
qed

lemma mulacc_facts:
  assumes "well_formed g inDev filterDev" "it \<in> set (nd_items g)"
    "MulAcc cell k \<in> set (conv_rows g (local_id it) 0)"
  shows "in_range cell (scratchpadRange g)" "k < length filterDev"
proof -
  note l = item_bounds(1,2) [OF assms(2)]
  from assms(3) obtain r c where rc: "r < filterWidth g" "c < filterWidth g"
    and cell: "cell = (fst (local_id it) + r, snd (local_id it) + c)"
    and k: "k = r * filterWidth g + c"
    by (auto simp: conv_rows_product)
  show "in_range cell (scratchpadRange g)"
    unfolding cell using l rc assms(1) by (intro window_in_range) (simp_all add: well_formed_def)
  show "k < length filterDev"
    unfolding k using idx_bound [OF rc] assms(1)
    by (simp add: well_formed_def range_size_def filterRange_def)
qed

lemma replay_stages:
  assumes "\<forall>e \<in> set es. \<exists>cell k. e = Stage cell k"
  shows "foldl (replay t f) s es = s"
  using assms by (induction es arbitrary: s) auto

lemma replay_done:
  "foldl (replay (tile g inDev (group_id it)) filterDev) s
     (tile_loader g it @ GroupBarrier # SumInit # conv_rows g (local_id it) 0)
   = conv_sum g inDev filterDev it"
  by (simp add: conv_sum_def)

lemma invD:
  assumes "dispatch_inv g inDev filterDev sums c"
  shows "\<And>it. it \<notin> set (nd_items g) \<Longrightarrow> pc c it = []"
    and "\<And>it. it \<in> set (nd_items g) \<Longrightarrow> \<exists>done. kernel_item g it = done @ pc c it \<and>
          priv_sum c it = foldl (replay (tile g inDev (group_id it)) filterDev) (sums it) done"
    and "\<And>grp cell v. scratch c grp cell = Some v \<Longrightarrow> v = tile g inDev grp cell"
    and "\<And>it cell k. it \<in> set (nd_items g) \<Longrightarrow> Stage cell k \<in> set (kernel_item g it) \<Longrightarrow>
          scratch c (group_id it) cell = None \<Longrightarrow> Stage cell k \<in> set (pc c it)"
    and "\<And>it it' cell k. it \<in> set (nd_items g) \<Longrightarrow> GroupBarrier \<notin> set (pc c it) \<Longrightarrow>
          it' \<in> set (group_items (group_id it)) \<Longrightarrow> Stage cell k \<notin> set (pc c it')"
    and "length (outDev c) = range_size (outBufRange g)"
    and "\<And>it. it \<in> set (nd_items g) \<Longrightarrow> pc c it = [] \<Longrightarrow>
          outDev c ! out_index g it = conv_sum g inDev filterDev it"
  using assms unfolding dispatch_inv_def by blast+

lemma inv_advance:
  fixes c c' :: "('a::{zero,plus,times}) config"
  assumes inv: "dispatch_inv g inDev filterDev sums c"
    and it: "it \<in> set (nd_items g)"
    and pc: "pc c it = e # es"
    and pc': "pc c' = (pc c)(it := es)"
    and sum': "priv_sum c' = (priv_sum c)
                 (it := replay (tile g inDev (group_id it)) filterDev (priv_sum c it) e)"
    and val: "\<And>grp cell v. scratch c' grp cell = Some v \<Longrightarrow> v = tile g inDev grp cell"
    and mono: "\<And>grp cell. scratch c' grp cell = None \<Longrightarrow> scratch c grp cell = None"
    and staged: "\<And>cell k. e = Stage cell k \<Longrightarrow> scratch c' (group_id it) cell \<noteq> None"
    and opened: "e = GroupBarrier \<Longrightarrow> barrier_open c (group_id it)"
    and len: "length (outDev c') = length (outDev c)"
    and frame: "\<And>it'. it' \<in> set (nd_items g) \<Longrightarrow> it' \<noteq> it \<Longrightarrow> pc c it' = [] \<Longrightarrow>
                  outDev c' ! out_index g it' = outDev c ! out_index g it'"
    and stored: "\<And>k. e = Store k \<Longrightarrow> outDev c' ! out_index g it = priv_sum c it"
  shows "dispatch_inv g inDev filterDev sums c'"
proof -
  note D = invD [OF inv]
  from D(2) [OF it] pc obtain dn where
    dn: "kernel_item g it = dn @ e # es"
    and sum: "priv_sum c it = foldl (replay (tile g inDev (group_id it)) filterDev) (sums it) dn"
    by auto
  have sub: "set (pc c' x) \<subseteq> set (pc c x)" for x
    using pc pc' by auto
  have 1: "\<forall>x. x \<notin> set (nd_items g) \<longrightarrow> pc c' x = []"
    using D(1) it pc' by auto
  have 2: "\<forall>x \<in> set (nd_items g). \<exists>done. kernel_item g x = done @ pc c' x \<and>
          priv_sum c' x = foldl (replay (tile g inDev (group_id x)) filterDev) (sums x) done"
  proof
    fix x assume x: "x \<in> set (nd_items g)"
    show "\<exists>done. kernel_item g x = done @ pc c' x \<and>
          priv_sum c' x = foldl (replay (tile g inDev (group_id x)) filterDev) (sums x) done"
    proof (cases "x = it")
      case True
      have "kernel_item g x = (dn @ [e]) @ pc c' x"
        using True dn pc' by simp
      moreover have "priv_sum c' x =
          foldl (replay (tile g inDev (group_id x)) filterDev) (sums x) (dn @ [e])"
        using True sum sum' by simp
      ultimately show ?thesis by blast
    next
      case False
      then show ?thesis
        using D(2) [OF x] pc' sum' by simp
    qed
  qed
  have 3: "\<forall>grp cell v. scratch c' grp cell = Some v \<longrightarrow> v = tile g inDev grp cell"
    using val by blast
  have 4: "\<forall>x \<in> set (nd_items g). \<forall>cell k. Stage cell k \<in> set (kernel_item g x) \<longrightarrow>
          scratch c' (group_id x) cell = None \<longrightarrow> Stage cell k \<in> set (pc c' x)"
  proof (intro ballI allI impI)
    fix x cell k
    assume x: "x \<in> set (nd_items g)" and k: "Stage cell k \<in> set (kernel_item g x)"
      and n: "scratch c' (group_id x) cell = None"
    have old: "Stage cell k \<in> set (pc c x)"
      using D(4) [OF x k mono [OF n]] .
    show "Stage cell k \<in> set (pc c' x)"
    proof (cases "x = it")
      case True
      have "Stage cell k \<noteq> e"
      proof
        assume "Stage cell k = e"
        then have "e = Stage cell k" by simp
        then have "scratch c' (group_id it) cell \<noteq> None"
          by (rule staged)
        with n True show False by simp
      qed
      then show ?thesis
        using True old pc pc' by simp
    next
      case False
      then show ?thesis using old pc' by simp
    qed
  qed
  have 5: "\<forall>x \<in> set (nd_items g). GroupBarrier \<notin> set (pc c' x) \<longrightarrow>
          (\<forall>y \<in> set (group_items (group_id x)). \<forall>cell k. Stage cell k \<notin> set (pc c' y))"
  proof (intro ballI allI impI)
    fix x y cell k
    assume x: "x \<in> set (nd_items g)" and b: "GroupBarrier \<notin> set (pc c' x)"
      and y: "y \<in> set (group_items (group_id x))"
    have "Stage cell k \<notin> set (pc c y)"
    proof (cases "x = it \<and> e = GroupBarrier")
      case True
      then have "barrier_open c (group_id x)"
        using opened by simp
      then have arr: "arrived (pc c y)"
        using y by (simp add: barrier_open_def list_all_iff)
      have "y \<in> set (nd_items g)"
        using x y by (rule group_items_subset)
      from D(2) [OF this] obtain dy where "kernel_item g y = dy @ pc c y"
        by blast
      then show ?thesis
        using arr by (rule arrived_no_stage)
    next
      case False
      then have "GroupBarrier \<notin> set (pc c x)"
        using b pc pc' by (cases "x = it") auto
      then show ?thesis
        using D(5) [OF x _ y] by blast
    qed
    then show "Stage cell k \<notin> set (pc c' y)"
      using sub by blast
  qed
  have 6: "length (outDev c') = range_size (outBufRange g)"
    using len D(6) by simp
  have 7: "\<forall>x \<in> set (nd_items g). pc c' x = [] \<longrightarrow>
          outDev c' ! out_index g x = conv_sum g inDev filterDev x"
  proof (intro ballI impI)
    fix x
    assume x: "x \<in> set (nd_items g)" and e: "pc c' x = []"
    show "outDev c' ! out_index g x = conv_sum g inDev filterDev x"
    proof (cases "x = it")
      case True
      then have es: "es = []" using e pc' by simp
      have "(tile_loader g it @ GroupBarrier # SumInit # conv_rows g (local_id it) 0)
              @ [Store (out_index g it)] = dn @ [e]"
        using dn es by (simp add: kernel_shape)
      then have d: "dn = tile_loader g it @ GroupBarrier # SumInit # conv_rows g (local_id it) 0"
        and e': "e = Store (out_index g it)"
        by (simp_all only: append1_eq_conv)
      have "outDev c' ! out_index g it = priv_sum c it"
        using stored e' by simp
      also have "\<dots> = conv_sum g inDev filterDev it"
        unfolding sum d by (rule replay_done)
      finally show ?thesis using True by simp
    next
      case False
      then have "pc c x = []" using e pc' by simp
      then show ?thesis
        using D(7) [OF x] frame [OF x False] by simp
    qed
  qed
  show ?thesis
    unfolding dispatch_inv_def using 1 2 3 4 5 6 7 by blast
qed

lemma mulacc_in_kernel:
  "MulAcc cell k \<in> set (kernel_item g it) \<longleftrightarrow> MulAcc cell k \<in> set (conv_rows g (local_id it) 0)"
  by (auto simp: kernel_shape dest: tile_loader_all_stage)

text \<open>
  No two work-items of a group stage the same cell: the scratch tile has one writer per
  cell.
\<close>

lemma scratch_cell_single_writer:
  assumes "well_formed g inDev filterDev"
    and "it \<in> set (nd_items g)" "it' \<in> set (nd_items g)"
    and "group_id it = group_id it'"
    and "Stage cell k \<in> set (tile_loader g it)" "Stage cell k' \<in> set (tile_loader g it')"
  shows "it = it'"
proof -
  have "local_id it = local_id it'"
    using stage_facts(4,5) [OF assms(1,2,5)] stage_facts(4,5) [OF assms(1,3,6)]
    by (simp add: prod_eq_iff)
  with assms(4) show ?thesis by simp
qed

text \<open>
  Every index a work-item of the range computes lies inside the buffer it is used on. The
  largest value any index expression takes is therefore below the size of an allocated
  buffer, and the \<^verbatim>\<open>size_t\<close> arithmetic of the source does not wrap.
\<close>

lemma kernel_indices_in_bounds:
  assumes "well_formed g inDev filterDev" and "it \<in> set (nd_items g)"
    and "e \<in> set (kernel_item g it)"
  shows "case e of
           Stage cell k \<Rightarrow> in_range cell (scratchpadRange g) \<and> k < range_size (inBufRange g)
         | MulAcc cell k \<Rightarrow> in_range cell (scratchpadRange g) \<and> k < range_size (filterRange g)
         | Store k \<Rightarrow> k < range_size (outBufRange g)
         | _ \<Rightarrow> True"
proof (cases e)
  case (Stage cell k)
  then have "Stage cell k \<in> set (tile_loader g it)"
    using assms(3) by (simp add: stage_in_kernel)
  from stage_facts(1,2) [OF assms(1,2) this] show ?thesis
    using Stage assms(1) by (simp add: well_formed_def)
next
  case (MulAcc cell k)
  then have "MulAcc cell k \<in> set (conv_rows g (local_id it) 0)"
    using assms(3) by (simp add: mulacc_in_kernel)
  from mulacc_facts [OF assms(1,2) this] show ?thesis
    using MulAcc assms(1) by (simp add: well_formed_def)
next
  case (Store k)
  then have "k = out_index g it"
    using assms(3) by (auto simp: kernel_shape dest: tile_loader_all_stage conv_rows_all_mulacc)
  then show ?thesis
    using Store out_index_bound [OF assms(2)] by (simp add: range_size_def outBufRange_def)
qed simp_all

lemma scratch_complete:
  assumes inv: "dispatch_inv g inDev filterDev sums c"
    and it: "it \<in> set (nd_items g)"
    and past: "GroupBarrier \<notin> set (pc c it)"
    and cell: "in_range cell (scratchpadRange g)"
  shows "scratch c (group_id it) cell = Some (tile g inDev (group_id it) cell)"
proof -
  note D = invD [OF inv]
  from cell_owner [OF it cell] obtain x k where
    x: "x \<in> set (group_items (group_id it))" and k: "Stage cell k \<in> set (tile_loader g x)"
    by blast
  have xi: "x \<in> set (nd_items g)"
    using it x by (rule group_items_subset)
  have grp: "group_id x = group_id it"
    using x by (simp add: set_group_items)
  have "Stage cell k \<notin> set (pc c x)"
    using D(5) [OF it past x] .
  moreover have "Stage cell k \<in> set (kernel_item g x)"
    using k by (simp add: stage_in_kernel)
  ultimately have "scratch c (group_id x) cell \<noteq> None"
    using D(4) [OF xi] by blast
  then obtain v where "scratch c (group_id it) cell = Some v"
    using grp by auto
  then show ?thesis
    using D(3) by blast
qed

lemma inv_step:
  fixes c :: "('a::{zero,plus,times}) config"
  assumes wf: "well_formed g inDev filterDev" and inv: "dispatch_inv g inDev filterDev sums c"
  shows "\<exists>c'. step g inDev filterDev it c = Inr c' \<and> dispatch_inv g inDev filterDev sums c'"
proof (cases "pc c it")
  case Nil
  then show ?thesis using inv by (simp add: step_def)
next
  case (Cons e es)
  note D = invD [OF inv]
  have it: "it \<in> set (nd_items g)"
    using D(1) [of it] Cons by auto
  from D(2) [OF it] Cons obtain dn where dn: "kernel_item g it = dn @ e # es"
    by auto
  then have mem: "e \<in> set (kernel_item g it)" by simp
  show ?thesis
  proof (cases e)
    case (Stage cell k)
    have tl: "Stage cell k \<in> set (tile_loader g it)"
      using mem Stage by (simp add: stage_in_kernel)
    note F = stage_facts [OF wf it tl]
    let ?c' = "c\<lparr>scratch := (scratch c)
                  (group_id it := (scratch c (group_id it))(cell \<mapsto> inDev ! k)),
                pc := (pc c)(it := es)\<rparr>"
    have st: "step g inDev filterDev it c = Inr ?c'"
      using Cons Stage F(1,2) by (simp add: step_def)
    have "dispatch_inv g inDev filterDev sums ?c'"
    proof (rule inv_advance [OF inv it Cons])
      show "pc ?c' = (pc c)(it := es)" by simp
      show "priv_sum ?c' = (priv_sum c)
                 (it := replay (tile g inDev (group_id it)) filterDev (priv_sum c it) e)"
        using Stage by simp
      show "v = tile g inDev grp cell'" if "scratch ?c' grp cell' = Some v" for grp cell' v
        using that F(3) D(3) by (auto split: if_splits)
      show "scratch c grp cell' = None" if "scratch ?c' grp cell' = None" for grp cell'
        using that by (auto split: if_splits)
      show "scratch ?c' (group_id it) cell' \<noteq> None" if "e = Stage cell' k'" for cell' k'
        using that Stage by simp
      show "barrier_open c (group_id it)" if "e = GroupBarrier"
        using that Stage by simp
      show "length (outDev ?c') = length (outDev c)" by simp
      show "outDev ?c' ! out_index g it' = outDev c ! out_index g it'" for it'
        by simp
      show "outDev ?c' ! out_index g it = priv_sum c it" if "e = Store k'" for k'
        using that Stage by simp
    qed
    with st show ?thesis by blast
  next
    case GroupBarrier
    show ?thesis
    proof (cases "barrier_open c (group_id it)")
      case False
      then show ?thesis
        using Cons GroupBarrier inv by (simp add: step_def)
    next
      case True
      let ?c' = "c\<lparr>pc := (pc c)(it := es)\<rparr>"
      have st: "step g inDev filterDev it c = Inr ?c'"
        using Cons GroupBarrier True by (simp add: step_def)
      have "dispatch_inv g inDev filterDev sums ?c'"
      proof (rule inv_advance [OF inv it Cons])
        show "pc ?c' = (pc c)(it := es)" by simp
        show "priv_sum ?c' = (priv_sum c)
                 (it := replay (tile g inDev (group_id it)) filterDev (priv_sum c it) e)"
          using GroupBarrier by simp
        show "v = tile g inDev grp cell'" if "scratch ?c' grp cell' = Some v" for grp cell' v
          using that D(3) by simp
        show "scratch c grp cell' = None" if "scratch ?c' grp cell' = None" for grp cell'
          using that by simp
        show "scratch ?c' (group_id it) cell' \<noteq> None" if "e = Stage cell' k'" for cell' k'
          using that GroupBarrier by simp
        show "barrier_open c (group_id it)" using True .
        show "length (outDev ?c') = length (outDev c)" by simp
        show "outDev ?c' ! out_index g it' = outDev c ! out_index g it'" for it'
          by simp
        show "outDev ?c' ! out_index g it = priv_sum c it" if "e = Store k'" for k'
          using that GroupBarrier by simp
      qed
      with st show ?thesis by blast
    qed
  next
    case SumInit
    let ?c' = "c\<lparr>priv_sum := (priv_sum c)(it := f4_zero), pc := (pc c)(it := es)\<rparr>"
    have st: "step g inDev filterDev it c = Inr ?c'"
      using Cons SumInit by (simp add: step_def)
    have "dispatch_inv g inDev filterDev sums ?c'"
    proof (rule inv_advance [OF inv it Cons])
      show "pc ?c' = (pc c)(it := es)" by simp
      show "priv_sum ?c' = (priv_sum c)
                 (it := replay (tile g inDev (group_id it)) filterDev (priv_sum c it) e)"
        using SumInit by simp
      show "v = tile g inDev grp cell'" if "scratch ?c' grp cell' = Some v" for grp cell' v
        using that D(3) by simp
      show "scratch c grp cell' = None" if "scratch ?c' grp cell' = None" for grp cell'
        using that by simp
      show "scratch ?c' (group_id it) cell' \<noteq> None" if "e = Stage cell' k'" for cell' k'
        using that SumInit by simp
      show "barrier_open c (group_id it)" if "e = GroupBarrier"
        using that SumInit by simp
      show "length (outDev ?c') = length (outDev c)" by simp
      show "outDev ?c' ! out_index g it' = outDev c ! out_index g it'" for it'
        by simp
      show "outDev ?c' ! out_index g it = priv_sum c it" if "e = Store k'" for k'
        using that SumInit by simp
    qed
    with st show ?thesis by blast
  next
    case (MulAcc cell k)
    have cr: "MulAcc cell k \<in> set (conv_rows g (local_id it) 0)"
      using mem MulAcc by (simp add: mulacc_in_kernel)
    note F = mulacc_facts [OF wf it cr]
    have "GroupBarrier \<notin> set (e # es)"
      using dn MulAcc by (intro past_barrier [of g it dn]) simp_all
    then have past: "GroupBarrier \<notin> set (pc c it)"
      using Cons by simp
    note v = scratch_complete [OF inv it past F(1)]
    let ?c' = "c\<lparr>priv_sum := (priv_sum c)
                  (it := f4_add (priv_sum c it)
                           (f4_mul (tile g inDev (group_id it) cell) (filterDev ! k))),
                pc := (pc c)(it := es)\<rparr>"
    have st: "step g inDev filterDev it c = Inr ?c'"
      using Cons MulAcc F v by (simp add: step_def)
    have "dispatch_inv g inDev filterDev sums ?c'"
    proof (rule inv_advance [OF inv it Cons])
      show "pc ?c' = (pc c)(it := es)" by simp
      show "priv_sum ?c' = (priv_sum c)
                 (it := replay (tile g inDev (group_id it)) filterDev (priv_sum c it) e)"
        using MulAcc by simp
      show "v = tile g inDev grp cell'" if "scratch ?c' grp cell' = Some v" for grp cell' v
        using that D(3) by simp
      show "scratch c grp cell' = None" if "scratch ?c' grp cell' = None" for grp cell'
        using that by simp
      show "scratch ?c' (group_id it) cell' \<noteq> None" if "e = Stage cell' k'" for cell' k'
        using that MulAcc by simp
      show "barrier_open c (group_id it)" if "e = GroupBarrier"
        using that MulAcc by simp
      show "length (outDev ?c') = length (outDev c)" by simp
      show "outDev ?c' ! out_index g it' = outDev c ! out_index g it'" for it'
        by simp
      show "outDev ?c' ! out_index g it = priv_sum c it" if "e = Store k'" for k'
        using that MulAcc by simp
    qed
    with st show ?thesis by blast
  next
    case (Store k)
    have k: "k = out_index g it"
      using store_is_last [of g it dn k es] dn Store by simp
    have kb: "k < length (outDev c)"
      using out_index_bound [OF it] D(6) k by (simp add: range_size_def outBufRange_def)
    let ?c' = "c\<lparr>outDev := (outDev c)[k := priv_sum c it], pc := (pc c)(it := es)\<rparr>"
    have st: "step g inDev filterDev it c = Inr ?c'"
      using Cons Store kb by (simp add: step_def)
    have "dispatch_inv g inDev filterDev sums ?c'"
    proof (rule inv_advance [OF inv it Cons])
      show "pc ?c' = (pc c)(it := es)" by simp
      show "priv_sum ?c' = (priv_sum c)
                 (it := replay (tile g inDev (group_id it)) filterDev (priv_sum c it) e)"
        using Store by simp
      show "v = tile g inDev grp cell'" if "scratch ?c' grp cell' = Some v" for grp cell' v
        using that D(3) by simp
      show "scratch c grp cell' = None" if "scratch ?c' grp cell' = None" for grp cell'
        using that by simp
      show "scratch ?c' (group_id it) cell' \<noteq> None" if "e = Stage cell' k'" for cell' k'
        using that Store by simp
      show "barrier_open c (group_id it)" if "e = GroupBarrier"
        using that Store by simp
      show "length (outDev ?c') = length (outDev c)" by simp
      show "outDev ?c' ! out_index g it' = outDev c ! out_index g it'"
        if "it' \<in> set (nd_items g)" "it' \<noteq> it" for it'
      proof -
        have "out_index g it' \<noteq> k"
          using out_index_inj [OF that(1) it] that(2) k by blast
        then show ?thesis by simp
      qed
      show "outDev ?c' ! out_index g it = priv_sum c it" if "e = Store k'" for k'
        using k kb by simp
    qed
    with st show ?thesis by blast
  qed
qed

lemma barrier_in_kernel: "GroupBarrier \<in> set (kernel_item g it)"
  by (simp add: kernel_item_def)

lemma inv_init:
  assumes "length out0 = range_size (outBufRange g)"
  shows "dispatch_inv g inDev filterDev sums (init_config g sums out0)"
  unfolding dispatch_inv_def init_config_def
  using assms barrier_in_kernel [of g] by (auto simp: kernel_item_def)

lemma inv_run:
  fixes c :: "('a::{zero,plus,times}) config"
  assumes "well_formed g inDev filterDev" "dispatch_inv g inDev filterDev sums c"
  shows "\<exists>c'. run g inDev filterDev sched c = Inr c' \<and> dispatch_inv g inDev filterDev sums c'"
  using assms(2)
proof (induction sched arbitrary: c)
  case Nil
  then show ?case by simp
next
  case (Cons it sched)
  from inv_step [OF assms(1) Cons.prems, of it] obtain c1 where
    "step g inDev filterDev it c = Inr c1" "dispatch_inv g inDev filterDev sums c1"
    by blast
  with Cons.IH [of c1] show ?case by simp
qed

lemma run_sound:
  fixes out0 :: "('a::{zero,plus,times}) float4 list"
  assumes "well_formed g inDev filterDev" "length out0 = range_size (outBufRange g)"
  shows "\<exists>c. run g inDev filterDev sched (init_config g sums out0) = Inr c \<and>
             dispatch_inv g inDev filterDev sums c"
  using inv_run [OF assms(1) inv_init [OF assms(2)]] .

lemma conv_sum_naive:
  "conv_sum g inDev filterDev it =
     naive_pixel g inDev filterDev (fst (get_global_id it)) (snd (get_global_id it))"
proof -
  have "foldl (replay t filterDev) s (map (\<lambda>(r, c). MulAcc (cf r c) (kf r c)) ps) =
        foldl (\<lambda>s (r, c). f4_add s (f4_mul (t (cf r c)) (filterDev ! kf r c))) s ps"
    for t s ps and cf :: "nat \<Rightarrow> nat \<Rightarrow> id2" and kf :: "nat \<Rightarrow> nat \<Rightarrow> nat"
    by (induction ps arbitrary: s) auto
  then show ?thesis
    unfolding conv_sum_def naive_pixel_def conv_rows_product
    by (simp add: tile_def get_global_id_def inBufRange_def add.assoc mult.commute)
qed

lemma finished_output:
  assumes inv: "dispatch_inv g inDev filterDev sums c" and fin: "finished g c"
    and dv: "8 dvd inputImgHeight g" "8 dvd inputImgWidth g"
  shows "outDev c = naive_convolution g inDev filterDev"
proof (rule nth_equalityI)
  note D = invD [OF inv]
  show len: "length (outDev c) = length (naive_convolution g inDev filterDev)"
    using D(6) by (simp add: naive_convolution_def range_size_def outBufRange_def)
  fix k assume "k < length (outDev c)"
  then have k: "k < inputImgHeight g * inputImgWidth g"
    using len by (simp add: naive_convolution_def)
  from out_index_surj [OF dv k] obtain it where
    it: "it \<in> set (nd_items g)" and o: "out_index g it = k"
    by blast
  have "pc c it = []"
    using fin it by (simp add: finished_def list_all_iff)
  then have "outDev c ! k = conv_sum g inDev filterDev it"
    using D(7) [OF it] o by simp
  moreover have "k div inputImgWidth g = fst (get_global_id it)"
    "k mod inputImgWidth g = snd (get_global_id it)"
    using o item_bounds(6) [OF it] idx_div [of "snd (get_global_id it)" "inputImgWidth g"
      "fst (get_global_id it)"]
    by (simp_all add: out_index_def outBufRange_def)
  ultimately show "outDev c ! k = naive_convolution g inDev filterDev ! k"
    using k by (simp add: naive_convolution_def conv_sum_naive)
qed


section \<open>Every dispatch can run to completion\<close>

lemma exec_event_pc:
  "exec_event g inDev filterDev it e c = Inr c' \<Longrightarrow> pc c' = pc c"
proof (cases e)
  case (Stage cell k)
  assume "exec_event g inDev filterDev it e c = Inr c'"
  then have "c' = c\<lparr>scratch := (scratch c)
                     (group_id it := (scratch c (group_id it))(cell \<mapsto> inDev ! k))\<rparr>"
    unfolding Stage by (simp split: if_splits)
  then show ?thesis by simp
next
  case GroupBarrier
  assume "exec_event g inDev filterDev it e c = Inr c'"
  then show ?thesis unfolding GroupBarrier by simp
next
  case SumInit
  assume "exec_event g inDev filterDev it e c = Inr c'"
  then have "c' = c\<lparr>priv_sum := (priv_sum c)(it := f4_zero)\<rparr>"
    unfolding SumInit by simp
  then show ?thesis by simp
next
  case (MulAcc cell k)
  assume a: "exec_event g inDev filterDev it e c = Inr c'"
  then obtain v where "c' = c\<lparr>priv_sum := (priv_sum c)
                         (it := f4_add (priv_sum c it) (f4_mul v (filterDev ! k)))\<rparr>"
    unfolding MulAcc by (auto split: if_splits option.splits)
  then show ?thesis by simp
next
  case (Store k)
  assume "exec_event g inDev filterDev it e c = Inr c'"
  then have "c' = c\<lparr>outDev := (outDev c)[k := priv_sum c it]\<rparr>"
    unfolding Store by (simp split: if_splits)
  then show ?thesis by simp
qed

lemma step_consumes:
  assumes "step g inDev filterDev it c = Inr c'" "pc c it = e # es"
    "e \<noteq> GroupBarrier \<or> barrier_open c (group_id it)"
  shows "pc c' = (pc c)(it := es)"
proof -
  have "step g inDev filterDev it c =
          (case exec_event g inDev filterDev it e c of
             Inl err \<Rightarrow> Inl err
           | Inr c1 \<Rightarrow> Inr (c1\<lparr>pc := (pc c1)(it := es)\<rparr>))"
    using assms(2,3) by (cases "e = GroupBarrier") (simp_all add: step_def)
  with assms(1) obtain c1 where e: "exec_event g inDev filterDev it e c = Inr c1"
    and c': "c1\<lparr>pc := (pc c1)(it := es)\<rparr> = c'"
    by (cases "exec_event g inDev filterDev it e c") simp_all
  have "pc c' = (pc c1)(it := es)"
    unfolding c' [symmetric] by simp
  then show ?thesis
    using exec_event_pc [OF e] by simp
qed

lemma sum_list_less:
  fixes f h :: "'b \<Rightarrow> nat"
  assumes "\<forall>x \<in> set xs. f x \<le> h x" "y \<in> set xs" "f y < h y"
  shows "sum_list (map f xs) < sum_list (map h xs)"
  using assms
proof (induction xs)
  case Nil
  then show ?case by simp
next
  case (Cons a xs)
  have le: "sum_list (map f xs) \<le> sum_list (map h xs)"
    using Cons.prems(1) by (intro sum_list_mono) simp
  show ?case
  proof (cases "y = a")
    case True
    then show ?thesis using le Cons.prems(3) by simp
  next
    case False
    then have "sum_list (map f xs) < sum_list (map h xs)"
      using Cons by simp
    moreover have "f a \<le> h a" using Cons.prems(1) by simp
    ultimately show ?thesis by simp
  qed
qed

lemma remaining_less:
  assumes "it \<in> set (nd_items g)" "pc c it = e # es" "pc c' = (pc c)(it := es)"
  shows "remaining g c' < remaining g c"
  unfolding remaining_def
  using assms by (intro sum_list_less [where y = it]) auto

lemma not_arrived:
  assumes "\<not> arrived p"
  shows "\<exists>e es. p = e # es \<and> e \<noteq> GroupBarrier"
  using assms by (cases p) (auto simp: arrived_def split: event.splits)

lemma run_append:
  "run g inDev filterDev (s1 @ s2) c =
     (case run g inDev filterDev s1 c of
        Inl err \<Rightarrow> Inl err
      | Inr c' \<Rightarrow> run g inDev filterDev s2 c')"
  by (induction s1 arbitrary: c) (auto split: sum.splits)

lemma step_cases:
  assumes "step g inDev filterDev it c = Inr c'"
  shows "c' = c \<or> (\<exists>e es. pc c it = e # es \<and>
                       (e \<noteq> GroupBarrier \<or> barrier_open c (group_id it)) \<and>
                       pc c' = (pc c)(it := es))"
proof (cases "pc c it")
  case Nil
  with assms show ?thesis by (simp add: step_def)
next
  case (Cons e es)
  show ?thesis
  proof (cases "e = GroupBarrier \<and> \<not> barrier_open c (group_id it)")
    case True
    with assms Cons show ?thesis by (simp add: step_def)
  next
    case False
    then have "e \<noteq> GroupBarrier \<or> barrier_open c (group_id it)" by blast
    from step_consumes [OF assms Cons this] Cons this show ?thesis by blast
  qed
qed

lemma step_other:
  assumes "step g inDev filterDev it c = Inr c'" "x \<noteq> it"
  shows "pc c' x = pc c x"
  using step_cases [OF assms(1)] assms(2) by auto

lemma step_remaining:
  assumes "step g inDev filterDev it c = Inr c'"
  shows "remaining g c' \<le> remaining g c"
proof -
  have "length (pc c' x) \<le> length (pc c x)" for x
    using step_cases [OF assms] by (cases "x = it") auto
  then show ?thesis
    unfolding remaining_def by (intro sum_list_mono) simp
qed

lemma step_arrived:
  fixes c :: "('a::{zero,plus,times}) config"
  assumes inv: "dispatch_inv g inDev filterDev sums c"
    and st: "step g inDev filterDev it c = Inr c'"
    and x: "x \<in> set (nd_items g)" and arr: "arrived (pc c x)"
  shows "arrived (pc c' x)"
proof -
  from step_cases [OF st] consider "c' = c"
    | e es where "pc c it = e # es" "pc c' = (pc c)(it := es)"
    by blast
  then show ?thesis
  proof cases
    case 1
    with arr show ?thesis by simp
  next
    case (2 e es)
    note pc = this(1) and pc' = this(2)
    show ?thesis
    proof (cases "x = it")
      case False
      with pc' arr show ?thesis by simp
    next
      case True
      from invD(2) [OF inv x] pc True obtain dn where dn: "kernel_item g it = dn @ e # es"
        by auto
      have "GroupBarrier \<notin> set es"
      proof (cases "e = GroupBarrier")
        case True
        with dn after_barrier [of g it dn es] show ?thesis by simp
      next
        case False
        with arr pc \<open>x = it\<close> show ?thesis
          by (simp add: arrived_def split: event.splits)
      qed
      then have "arrived es"
        by (cases es) (auto simp: arrived_def split: event.splits)
      with pc' True show ?thesis by simp
    qed
  qed
qed

lemma run_facts:
  fixes c :: "('a::{zero,plus,times}) config"
  assumes wf: "well_formed g inDev filterDev" and inv: "dispatch_inv g inDev filterDev sums c"
  shows "\<exists>c'. run g inDev filterDev sched c = Inr c' \<and>
           dispatch_inv g inDev filterDev sums c' \<and>
           remaining g c' \<le> remaining g c \<and>
           (\<forall>x. x \<notin> set sched \<longrightarrow> pc c' x = pc c x) \<and>
           (\<forall>grp. barrier_open c grp \<longrightarrow> in_range grp (group_range g) \<longrightarrow> barrier_open c' grp)"
  using inv
proof (induction sched arbitrary: c)
  case Nil
  then show ?case by simp
next
  case (Cons it sched)
  from inv_step [OF wf Cons.prems, of it] obtain c1 where
    st: "step g inDev filterDev it c = Inr c1" and inv1: "dispatch_inv g inDev filterDev sums c1"
    by blast
  from Cons.IH [OF inv1] obtain c' where
    r: "run g inDev filterDev sched c1 = Inr c'"
    and i: "dispatch_inv g inDev filterDev sums c'"
    and m: "remaining g c' \<le> remaining g c1"
    and o: "\<forall>x. x \<notin> set sched \<longrightarrow> pc c' x = pc c1 x"
    and b: "\<forall>grp. barrier_open c1 grp \<longrightarrow> in_range grp (group_range g) \<longrightarrow> barrier_open c' grp"
    by blast
  have "run g inDev filterDev (it # sched) c = Inr c'"
    using st r by simp
  moreover have "remaining g c' \<le> remaining g c"
    using m step_remaining [OF st] by simp
  moreover have "\<forall>x. x \<notin> set (it # sched) \<longrightarrow> pc c' x = pc c x"
    using o step_other [OF st] by simp
  moreover have "\<forall>grp. barrier_open c grp \<longrightarrow> in_range grp (group_range g) \<longrightarrow> barrier_open c' grp"
  proof (intro allI impI)
    fix grp assume op: "barrier_open c grp" and grp: "in_range grp (group_range g)"
    have "barrier_open c1 grp"
      unfolding barrier_open_def list_all_iff
    proof
      fix x assume x: "x \<in> set (group_items grp)"
      then have xi: "x \<in> set (nd_items g)"
        using grp by (simp add: set_group_items set_nd_items)
      have "arrived (pc c x)"
        using op x by (simp add: barrier_open_def list_all_iff)
      then show "arrived (pc c1 x)"
        using step_arrived [OF Cons.prems st xi] by simp
    qed
    with b grp show "barrier_open c' grp" by blast
  qed
  ultimately show ?case using i by blast
qed


lemma can_advance:
  assumes "\<not> finished g c"
  shows "\<exists>y e es. y \<in> set (nd_items g) \<and> pc c y = e # es \<and>
          (e \<noteq> GroupBarrier \<or> barrier_open c (group_id y))"
proof -
  from assms obtain x where x: "x \<in> set (nd_items g)" and px: "pc c x \<noteq> []"
    by (auto simp: finished_def list_all_iff)
  then obtain e es where pcx: "pc c x = e # es"
    by (cases "pc c x") auto
  show ?thesis
  proof (cases "e \<noteq> GroupBarrier \<or> barrier_open c (group_id x)")
    case True
    with x pcx show ?thesis by blast
  next
    case False
    then have "\<not> barrier_open c (group_id x)" by simp
    then obtain y where y: "y \<in> set (group_items (group_id x))" and na: "\<not> arrived (pc c y)"
      by (auto simp: barrier_open_def list_all_iff)
    from not_arrived [OF na] obtain e' es' where "pc c y = e' # es'" "e' \<noteq> GroupBarrier"
      by blast
    moreover have "y \<in> set (nd_items g)"
      using x y by (rule group_items_subset)
    ultimately show ?thesis by blast
  qed
qed

lemma round_progress:
  fixes c :: "('a::{zero,plus,times}) config"
  assumes wf: "well_formed g inDev filterDev" and inv: "dispatch_inv g inDev filterDev sums c"
    and nf: "\<not> finished g c"
  shows "\<exists>c'. run g inDev filterDev (nd_items g) c = Inr c' \<and>
           dispatch_inv g inDev filterDev sums c' \<and> remaining g c' < remaining g c"
proof -
  from can_advance [OF nf] obtain y e es where
    y: "y \<in> set (nd_items g)" and pcy: "pc c y = e # es"
    and go: "e \<noteq> GroupBarrier \<or> barrier_open c (group_id y)"
    by blast
  from split_list_first [OF y] obtain xs ys where
    items: "nd_items g = xs @ y # ys" and first: "y \<notin> set xs"
    by blast
  have grp: "in_range (group_id y) (group_range g)"
    using y by (simp add: set_nd_items)
  from run_facts [OF wf inv, of xs] first grp obtain c1 where
    r1: "run g inDev filterDev xs c = Inr c1"
    and i1: "dispatch_inv g inDev filterDev sums c1"
    and m1: "remaining g c1 \<le> remaining g c"
    and p1: "pc c1 y = pc c y"
    and b1: "barrier_open c (group_id y) \<longrightarrow> barrier_open c1 (group_id y)"
    by blast
  from inv_step [OF wf i1, of y] obtain c2 where
    st: "step g inDev filterDev y c1 = Inr c2" and i2: "dispatch_inv g inDev filterDev sums c2"
    by blast
  have go1: "e \<noteq> GroupBarrier \<or> barrier_open c1 (group_id y)"
    using go b1 by blast
  have pcy1: "pc c1 y = e # es"
    using p1 pcy by simp
  have m2: "remaining g c2 < remaining g c1"
    using y pcy1 step_consumes [OF st pcy1 go1] by (rule remaining_less)
  from run_facts [OF wf i2, of ys] obtain c' where
    r3: "run g inDev filterDev ys c2 = Inr c'"
    and i3: "dispatch_inv g inDev filterDev sums c'"
    and m3: "remaining g c' \<le> remaining g c2"
    by blast
  have "run g inDev filterDev (nd_items g) c = Inr c'"
    unfolding items using r1 st r3 by (simp add: run_append)
  moreover have "remaining g c' < remaining g c"
    using m1 m2 m3 by simp
  ultimately show ?thesis using i3 by blast
qed

lemma finished_stutter:
  assumes "dispatch_inv g inDev filterDev sums c" "finished g c"
  shows "run g inDev filterDev sched c = Inr c"
proof -
  have "pc c it = []" for it
    using assms invD(1) [OF assms(1), of it]
    by (cases "it \<in> set (nd_items g)") (simp_all add: finished_def list_all_iff)
  then have "step g inDev filterDev it c = Inr c" for it
    by (simp add: step_def)
  then show ?thesis
    by (induction sched) simp_all
qed

lemma remaining_zero:
  assumes "remaining g c = 0"
  shows "finished g c"
  using assms by (simp add: remaining_def finished_def list_all_iff)

lemma rounds_complete:
  fixes c :: "('a::{zero,plus,times}) config"
  assumes wf: "well_formed g inDev filterDev" and inv: "dispatch_inv g inDev filterDev sums c"
    and n: "remaining g c \<le> n"
  shows "\<exists>c'. run g inDev filterDev (concat (replicate n (nd_items g))) c = Inr c' \<and>
           finished g c' \<and> dispatch_inv g inDev filterDev sums c'"
  using inv n
proof (induction n arbitrary: c)
  case 0
  then show ?case using remaining_zero by auto
next
  case (Suc n)
  show ?case
  proof (cases "finished g c")
    case True
    from finished_stutter [OF Suc.prems(1) True] True Suc.prems(1) show ?thesis
      by blast
  next
    case False
    from round_progress [OF wf Suc.prems(1) False] obtain c1 where
      r: "run g inDev filterDev (nd_items g) c = Inr c1"
      and i: "dispatch_inv g inDev filterDev sums c1"
      and m: "remaining g c1 < remaining g c"
      by blast
    from m Suc.prems(2) have "remaining g c1 \<le> n" by simp
    from Suc.IH [OF i this] r show ?thesis
      by (simp add: run_append)
  qed
qed

lemma remaining_init:
  "remaining g (init_config g sums out0) =
     sum_list (map (\<lambda>it. length (kernel_item g it)) (nd_items g))"
  unfolding remaining_def init_config_def
  by (intro arg_cong [where f = sum_list] map_cong) simp_all

lemma round_robin_completes:
  fixes out0 :: "('a::{zero,plus,times}) float4 list"
  assumes "well_formed g inDev filterDev" "length out0 = range_size (outBufRange g)"
  shows "\<exists>c. run g inDev filterDev (round_robin g) (init_config g sums out0) = Inr c \<and>
             finished g c"
  using rounds_complete [OF assms(1) inv_init [OF assms(2)], of sums
      "sum_list (map (\<lambda>it. length (kernel_item g it)) (nd_items g))"]
  by (auto simp: remaining_init round_robin_def)

lemma enough_rounds_complete:
  fixes out0 :: "('a::{zero,plus,times}) float4 list"
  assumes "well_formed g inDev filterDev" "length out0 = range_size (outBufRange g)"
    and "sum_list (map (\<lambda>it. length (kernel_item g it)) (nd_items g)) \<le> n"
  shows "\<exists>c. run g inDev filterDev (concat (replicate n (nd_items g)))
               (init_config g sums out0) = Inr c \<and> finished g c"
  using rounds_complete [OF assms(1) inv_init [OF assms(2)], of sums n] assms(3)
  by (auto simp: remaining_init)


section \<open>The dispatch as a whole\<close>

lemma dispatch_sound:
  fixes out0 :: "('a::{zero,plus,times}) float4 list"
  assumes "well_formed g inDev filterDev" "length out0 = range_size (outBufRange g)"
    "8 dvd inputImgHeight g" "8 dvd inputImgWidth g"
  shows "\<exists>c. run g inDev filterDev sched (init_config g sums out0) = Inr c \<and>
             (finished g c \<longrightarrow> outDev c = naive_convolution g inDev filterDev)"
proof -
  from run_sound [OF assms(1,2), of sched sums] obtain c where
    "run g inDev filterDev sched (init_config g sums out0) = Inr c"
    "dispatch_inv g inDev filterDev sums c"
    by blast
  then show ?thesis
    using finished_output [OF _ _ assms(3,4)] by blast
qed

lemma dispatch_completes:
  fixes out0 :: "('a::{zero,plus,times}) float4 list"
  assumes "well_formed g inDev filterDev" "length out0 = range_size (outBufRange g)"
  shows "\<exists>sched c. run g inDev filterDev sched (init_config g sums out0) = Inr c \<and> finished g c"
  using round_robin_completes [OF assms] by blast

text \<open>
  Claim C1. For an image whose dimensions are multiples of 8, a filter of any width with
  its halo, and buffers of the sizes \<^verbatim>\<open>main\<close> allocates: however the device interleaves
  the work-items, the dispatch performs no undefined access, and once every work-item is
  done the output buffer is the reference convolution, which sums
  \<open>input[(y + r) * paddedWidth + (x + c)] * filter[r][c]\<close> over the filter in row-major order
  for each pixel \<open>(y, x)\<close>. The two are equal exactly (hence within any tolerance), whatever
  the component arithmetic. The round-robin interleaving runs every work-item to its end.
\<close>

theorem tiled_kernel_equals_naive_convolution:
  fixes out0 :: "('a::{zero,plus,times}) float4 list"
  assumes "well_formed g inDev filterDev"
    and "8 dvd inputImgHeight g" and "8 dvd inputImgWidth g"
    and "length out0 = range_size (outBufRange g)"
  shows "(\<forall>sched. \<exists>c. run g inDev filterDev sched (init_config g sums out0) = Inr c \<and>
            (finished g c \<longrightarrow> outDev c = naive_convolution g inDev filterDev))
       \<and> (\<exists>c. run g inDev filterDev (round_robin g) (init_config g sums out0) = Inr c \<and>
            finished g c)"
  using dispatch_sound [OF assms(1,4,2,3)] round_robin_completes [OF assms(1,4)] by blast

lemma mulacc_cells:
  "MulAcc cell k \<in> set (conv_rows g lid 0) \<longleftrightarrow>
     (\<exists>r c. r < filterWidth g \<and> c < filterWidth g \<and>
            cell = (fst lid + r, snd lid + c) \<and> k = r * filterWidth g + c)"
  unfolding conv_rows_product by force

text \<open>
  Claim C4. The cells the convolution evaluator of a work-item reads are exactly
  \<open>localId + (r, c)\<close> for \<open>r, c\<close> below the filter width; each lies within the scratch
  extent and is staged by the tile loader of a work-item of the same group; and in no
  interleaving of a dispatch does a work-item read an unwritten cell or perform any other
  undefined access.
\<close>

theorem halo_completeness:
  fixes out0 :: "('a::{zero,plus,times}) float4 list"
  assumes "well_formed g inDev filterDev" and "it \<in> set (nd_items g)"
    and "length out0 = range_size (outBufRange g)"
  shows "{cell. \<exists>k. MulAcc cell k \<in> set (conv_evaluator g it)} =
           {(fst (local_id it) + r, snd (local_id it) + c) | r c.
              r < filterWidth g \<and> c < filterWidth g}
       \<and> (\<forall>r < filterWidth g. \<forall>c < filterWidth g.
            in_range (fst (local_id it) + r, snd (local_id it) + c) (scratchpadRange g) \<and>
            (\<exists>it' \<in> set (group_items (group_id it)). \<exists>k.
               Stage (fst (local_id it) + r, snd (local_id it) + c) k \<in> set (tile_loader g it')))
       \<and> (\<forall>sched. \<exists>c. run g inDev filterDev sched (init_config g sums out0) = Inr c)"
proof (intro conjI allI impI)
  show "{cell. \<exists>k. MulAcc cell k \<in> set (conv_evaluator g it)} =
           {(fst (local_id it) + r, snd (local_id it) + c) | r c.
              r < filterWidth g \<and> c < filterWidth g}"
    by (auto simp: conv_evaluator_def mulacc_cells)
next
  fix r c assume rc: "r < filterWidth g" "c < filterWidth g"
  have h: "halo g = half_width (filterWidth g)"
    using assms(1) by (simp add: well_formed_def)
  show "in_range (fst (local_id it) + r, snd (local_id it) + c) (scratchpadRange g)"
    using item_bounds(1,2) [OF assms(2)] rc h by (rule window_in_range)
  then show "\<exists>it' \<in> set (group_items (group_id it)). \<exists>k.
               Stage (fst (local_id it) + r, snd (local_id it) + c) k \<in> set (tile_loader g it')"
    using cell_owner [OF assms(2)] by blast
next
  fix sched
  show "\<exists>c. run g inDev filterDev sched (init_config g sums out0) = Inr c"
    using run_sound [OF assms(1,3), of sched sums] by blast
qed

text \<open>
  Claim C7. For a fixed input buffer, filter buffer and geometry (dimensions multiples
  of 8), two dispatches produce the same output buffer, whatever the two interleavings and
  whatever the output buffer and the private variables held before.
\<close>

theorem dispatch_deterministic:
  fixes out0 out0' :: "('a::{zero,plus,times}) float4 list"
  assumes "well_formed g inDev filterDev"
    and "8 dvd inputImgHeight g" and "8 dvd inputImgWidth g"
    and "length out0 = range_size (outBufRange g)"
    and "length out0' = range_size (outBufRange g)"
  shows "\<exists>c c'. run g inDev filterDev sched (init_config g sums out0) = Inr c \<and>
                run g inDev filterDev sched' (init_config g sums' out0') = Inr c' \<and>
                (finished g c \<and> finished g c' \<longrightarrow> outDev c = outDev c')"
proof -
  from dispatch_sound [OF assms(1,4,2,3), of sched sums] obtain c where
    c: "run g inDev filterDev sched (init_config g sums out0) = Inr c"
       "finished g c \<longrightarrow> outDev c = naive_convolution g inDev filterDev"
    by blast
  from dispatch_sound [OF assms(1,5,2,3), of sched' sums'] obtain c' where
    c': "run g inDev filterDev sched' (init_config g sums' out0') = Inr c'"
       "finished g c' \<longrightarrow> outDev c' = naive_convolution g inDev filterDev"
    by blast
  from c c' show ?thesis by auto
qed

lemma naive_unit_filter:
  fixes inDev :: "('a::{zero,one,plus,times}) float4 list"
  assumes "filterWidth g = 1" "halo g = 0" "length inDev = range_size (inBufRange g)"
  shows "naive_convolution g inDev [Float4 1 1 1 1] =
           map (\<lambda>v. f4_add f4_zero (f4_mul v (Float4 1 1 1 1))) inDev"
proof -
  have len: "length inDev = inputImgHeight g * inputImgWidth g"
    using assms(2,3) by (simp add: range_size_def inBufRange_def)
  have "naive_convolution g inDev [Float4 1 1 1 1] =
          map (\<lambda>k. f4_add f4_zero (f4_mul (inDev ! k) (Float4 1 1 1 1)))
            [0..<inputImgHeight g * inputImgWidth g]"
    unfolding naive_convolution_def naive_pixel_def
    using assms(1,2) by simp
  also have "\<dots> = map (\<lambda>v. f4_add f4_zero (f4_mul v (Float4 1 1 1 1)))
                     (map (\<lambda>k. inDev ! k) [0..<length inDev])"
    by (simp add: len)
  also have "map (\<lambda>k. inDev ! k) [0..<length inDev] = inDev"
    by (rule map_nth)
  finally show ?thesis .
qed

lemma map_fixes_list: "(map f xs = xs) = (\<forall>x \<in> set xs. f x = x)"
  by (induction xs) auto

lemma sfloat_unit_law: "(0 + x * 1 = x) = (x \<noteq> SFloat True 0)"
  by (cases x) (auto simp: zero_sfloat_def one_sfloat_def)

text \<open>
  Claim C8, amended. With filter width 1, halo 0 and the one filter weight equal to 1 in
  every channel, no interleaving of the dispatch performs an undefined access, and a
  completed dispatch leaves in each pixel of the output buffer the value \<open>0 + v * 1\<close>,
  computed component by component from the input pixel \<open>v\<close> at the same index. The output
  buffer equals the input buffer exactly when every pixel \<open>v\<close> of the image satisfies
  \<open>0 + v * 1 = v\<close>. Nothing is assumed of the arithmetic. The round-robin interleaving
  runs every work-item to its end.
\<close>

theorem unit_filter_stores_zero_plus_pixel:
  fixes out0 :: "('a::{zero,one,plus,times}) float4 list"
  assumes "filterWidth g = 1" and "halo g = 0"
    and "length inDev = range_size (inBufRange g)"
    and "8 dvd inputImgHeight g" and "8 dvd inputImgWidth g"
    and "length out0 = range_size (outBufRange g)"
  shows "(\<forall>sched. \<exists>c. run g inDev [Float4 1 1 1 1] sched (init_config g sums out0) = Inr c \<and>
            (finished g c \<longrightarrow>
               outDev c = map (\<lambda>v. f4_add f4_zero (f4_mul v (Float4 1 1 1 1))) inDev \<and>
               ((outDev c = inDev) =
                (\<forall>v \<in> set inDev. f4_add f4_zero (f4_mul v (Float4 1 1 1 1)) = v))))
       \<and> (\<exists>c. run g inDev [Float4 1 1 1 1] (round_robin g) (init_config g sums out0) = Inr c \<and>
            finished g c)"
proof (intro conjI allI)
  have wf: "well_formed g inDev [Float4 1 1 1 1]"
    using assms(1,2,3) by (simp add: well_formed_def half_width_def range_size_def filterRange_def)
  show "\<exists>c. run g inDev [Float4 1 1 1 1] (round_robin g) (init_config g sums out0) = Inr c \<and>
            finished g c"
    by (rule round_robin_completes [OF wf assms(6)])
  fix sched
  from dispatch_sound [OF wf assms(6,4,5), of sched sums] obtain c where
    r: "run g inDev [Float4 1 1 1 1] sched (init_config g sums out0) = Inr c"
    and o: "finished g c \<Longrightarrow> outDev c = naive_convolution g inDev [Float4 1 1 1 1]"
    by blast
  have "outDev c = map (\<lambda>v. f4_add f4_zero (f4_mul v (Float4 1 1 1 1))) inDev \<and>
        ((outDev c = inDev) =
         (\<forall>v \<in> set inDev. f4_add f4_zero (f4_mul v (Float4 1 1 1 1)) = v))"
    if "finished g c"
    using o [OF that] naive_unit_filter [OF assms(1,2,3)]
    by (simp add: map_fixes_list)
  with r show "\<exists>c. run g inDev [Float4 1 1 1 1] sched (init_config g sums out0) = Inr c \<and>
            (finished g c \<longrightarrow>
               outDev c = map (\<lambda>v. f4_add f4_zero (f4_mul v (Float4 1 1 1 1))) inDev \<and>
               ((outDev c = inDev) =
                (\<forall>v \<in> set inDev. f4_add f4_zero (f4_mul v (Float4 1 1 1 1)) = v)))"
    by blast
qed

text \<open>
  Claim C9. The actions of a work-item are: stages of scratch cells only, then the group
  barrier, then actions that neither stage a cell nor are a barrier; so the barrier is
  executed exactly once, whatever the data, after all the work-item's writes of the scratch
  tile and before all its reads. In every interleaving of a dispatch, once a work-item is
  past the barrier, every cell of its group's tile holds the input element the tile loader
  stages there.
\<close>

theorem barrier_separates_staging_from_reading:
  fixes out0 :: "('a::{zero,plus,times}) float4 list"
  assumes "well_formed g inDev filterDev"
    and "length out0 = range_size (outBufRange g)"
  shows "(\<forall>it. \<exists>pre post. kernel_item g it = pre @ [GroupBarrier] @ post \<and>
            (\<forall>e \<in> set pre. \<exists>cell k. e = Stage cell k) \<and>
            (\<forall>e \<in> set post. e \<noteq> GroupBarrier \<and> (\<forall>cell k. e \<noteq> Stage cell k)))
       \<and> (\<forall>sched. \<exists>c. run g inDev filterDev sched (init_config g sums out0) = Inr c \<and>
            (\<forall>it \<in> set (nd_items g). GroupBarrier \<notin> set (pc c it) \<longrightarrow>
               (\<forall>cell. in_range cell (scratchpadRange g) \<longrightarrow>
                  scratch c (group_id it) cell = Some (tile g inDev (group_id it) cell))))"
proof (intro conjI allI)
  fix it
  have "kernel_item g it = tile_loader g it @ [GroupBarrier] @ conv_evaluator g it"
    by (simp add: kernel_item_def)
  moreover have "\<forall>e \<in> set (tile_loader g it). \<exists>cell k. e = Stage cell k"
    using tile_loader_all_stage by blast
  moreover have "\<forall>e \<in> set (conv_evaluator g it). e \<noteq> GroupBarrier \<and> (\<forall>cell k. e \<noteq> Stage cell k)"
    using evaluator_no_stage evaluator_no_barrier by metis
  ultimately show "\<exists>pre post. kernel_item g it = pre @ [GroupBarrier] @ post \<and>
            (\<forall>e \<in> set pre. \<exists>cell k. e = Stage cell k) \<and>
            (\<forall>e \<in> set post. e \<noteq> GroupBarrier \<and> (\<forall>cell k. e \<noteq> Stage cell k))"
    by blast
next
  fix sched
  from run_sound [OF assms, of sched sums] obtain c where
    r: "run g inDev filterDev sched (init_config g sums out0) = Inr c"
    and i: "dispatch_inv g inDev filterDev sums c"
    by blast
  have "\<forall>it \<in> set (nd_items g). GroupBarrier \<notin> set (pc c it) \<longrightarrow>
               (\<forall>cell. in_range cell (scratchpadRange g) \<longrightarrow>
                  scratch c (group_id it) cell = Some (tile g inDev (group_id it) cell))"
    using scratch_complete [OF i] by blast
  with r show "\<exists>c. run g inDev filterDev sched (init_config g sums out0) = Inr c \<and>
            (\<forall>it \<in> set (nd_items g). GroupBarrier \<notin> set (pc c it) \<longrightarrow>
               (\<forall>cell. in_range cell (scratchpadRange g) \<longrightarrow>
                  scratch c (group_id it) cell = Some (tile g inDev (group_id it) cell)))"
    by blast
qed


section \<open>Concrete dispatches\<close>

lemma tiny_well_formed: "well_formed tiny_geom tiny_input tiny_filter"
  by (simp add: well_formed_def tiny_geom_def tiny_input_def tiny_filter_def half_width_def
        range_size_def inBufRange_def filterRange_def)

lemma tiny_out0_length: "length tiny_out0 = range_size (outBufRange tiny_geom)"
  by (simp add: tiny_out0_def tiny_geom_def range_size_def outBufRange_def)

lemma tiny_divisible: "8 dvd inputImgHeight tiny_geom" "8 dvd inputImgWidth tiny_geom"
  by (simp_all add: tiny_geom_def)

lemma demo_well_formed: "well_formed demo_geom demo_input demo_filter"
  by (simp add: well_formed_def demo_geom_def demo_input_def demo_filter_def half_width_def
        range_size_def inBufRange_def filterRange_def)

lemma demo_out0_length: "length (replicate 64 (f4_zero :: int float4)) = range_size (outBufRange demo_geom)"
  by (simp add: demo_geom_def range_size_def outBufRange_def)

lemma demo_divisible: "8 dvd inputImgHeight demo_geom" "8 dvd inputImgWidth demo_geom"
  by (simp_all add: demo_geom_def)

lemma tiny_dispatch:
  "\<exists>c. run tiny_geom tiny_input tiny_filter (round_robin tiny_geom)
           (init_config tiny_geom tiny_sums tiny_out0) = Inr c \<and> finished tiny_geom c"
  using round_robin_completes [OF tiny_well_formed tiny_out0_length] .

lemma tiny_item_in: "\<lparr>group_id = (0, 0), local_id = (1, 2)\<rparr> \<in> set (nd_items tiny_geom)"
  by (simp add: set_nd_items tiny_geom_def in_range_def group_range_def
        globalRange_def localRange_def)


section \<open>The dispatch theorems at concrete inputs\<close>

lemma demo_pixel:
  "naive_convolution demo_geom demo_input demo_filter ! 10 = Float4 207 0 0 9"
proof -
  have "naive_convolution demo_geom demo_input demo_filter ! 10 =
          naive_pixel demo_geom demo_input demo_filter 1 2"
    by (simp add: naive_convolution_def demo_geom_def)
  also have "\<dots> = Float4 207 0 0 9"
    by code_simp
  finally show ?thesis .
qed

theorem tiled_kernel_equals_naive_convolution_witness:
  "well_formed demo_geom demo_input demo_filter \<and>
   8 dvd inputImgHeight demo_geom \<and> 8 dvd inputImgWidth demo_geom \<and>
   length (replicate 64 (f4_zero :: int float4)) = range_size (outBufRange demo_geom) \<and>
   (\<exists>c. run demo_geom demo_input demo_filter (round_robin demo_geom) demo_config = Inr c \<and>
        finished demo_geom c \<and>
        outDev c = naive_convolution demo_geom demo_input demo_filter \<and>
        outDev c ! 10 = Float4 207 0 0 9)"
proof -
  note D = tiled_kernel_equals_naive_convolution
    [OF demo_well_formed demo_divisible demo_out0_length, of "\<lambda>it. f4_zero"]
  from D obtain d where
    d: "run demo_geom demo_input demo_filter (round_robin demo_geom)
          (init_config demo_geom (\<lambda>it. f4_zero) (replicate 64 f4_zero)) = Inr d"
       "finished demo_geom d"
    by blast
  from D d have o: "outDev d = naive_convolution demo_geom demo_input demo_filter"
    by (metis sum.inject(2))
  with d demo_pixel have "\<exists>c. run demo_geom demo_input demo_filter (round_robin demo_geom)
          demo_config = Inr c \<and>
        finished demo_geom c \<and>
        outDev c = naive_convolution demo_geom demo_input demo_filter \<and>
        outDev c ! 10 = Float4 207 0 0 9"
    unfolding demo_config_def by (intro exI [of _ d]) simp
  then show ?thesis
    using demo_well_formed demo_divisible demo_out0_length by blast
qed

lemma tiny_actions:
  "sum_list (map (\<lambda>it. length (kernel_item tiny_geom it)) (nd_items tiny_geom)) = 320"
  by code_simp

theorem dispatch_deterministic_witness:
  "well_formed tiny_geom tiny_input tiny_filter \<and>
   8 dvd inputImgHeight tiny_geom \<and> 8 dvd inputImgWidth tiny_geom \<and>
   length tiny_out0 = range_size (outBufRange tiny_geom) \<and>
   length (replicate 64 (f4_zero :: int float4)) = range_size (outBufRange tiny_geom) \<and>
   (\<exists>c c'.
        run tiny_geom tiny_input tiny_filter (round_robin tiny_geom)
            (init_config tiny_geom tiny_sums tiny_out0) = Inr c \<and>
        run tiny_geom tiny_input tiny_filter (concat (replicate 400 (nd_items tiny_geom)))
            (init_config tiny_geom (\<lambda>it. f4_zero) (replicate 64 f4_zero)) = Inr c' \<and>
        finished tiny_geom c \<and> finished tiny_geom c' \<and> outDev c = outDev c')"
proof -
  have len: "length (replicate 64 (f4_zero :: int float4)) = range_size (outBufRange tiny_geom)"
    by (simp add: tiny_geom_def range_size_def outBufRange_def)
  from tiny_dispatch obtain c where
    c: "run tiny_geom tiny_input tiny_filter (round_robin tiny_geom)
          (init_config tiny_geom tiny_sums tiny_out0) = Inr c"
       "finished tiny_geom c"
    by blast
  have "sum_list (map (\<lambda>it. length (kernel_item tiny_geom it)) (nd_items tiny_geom)) \<le> 400"
    by (simp add: tiny_actions)
  from enough_rounds_complete [OF tiny_well_formed len this, of "\<lambda>it. f4_zero"] obtain c' where
    c': "run tiny_geom tiny_input tiny_filter (concat (replicate 400 (nd_items tiny_geom)))
          (init_config tiny_geom (\<lambda>it. f4_zero) (replicate 64 f4_zero)) = Inr c'"
       "finished tiny_geom c'"
    by blast
  from dispatch_deterministic [OF tiny_well_formed tiny_divisible tiny_out0_length len,
      of "round_robin tiny_geom" tiny_sums "concat (replicate 400 (nd_items tiny_geom))"
         "\<lambda>it. f4_zero"] c c'
  have "outDev c = outDev c'"
    by (metis sum.inject(2))
  with c c' have "\<exists>c c'.
        run tiny_geom tiny_input tiny_filter (round_robin tiny_geom)
            (init_config tiny_geom tiny_sums tiny_out0) = Inr c \<and>
        run tiny_geom tiny_input tiny_filter (concat (replicate 400 (nd_items tiny_geom)))
            (init_config tiny_geom (\<lambda>it. f4_zero) (replicate 64 f4_zero)) = Inr c' \<and>
        finished tiny_geom c \<and> finished tiny_geom c' \<and> outDev c = outDev c'"
    by (intro exI [of _ c] exI [of _ c']) simp
  then show ?thesis
    using tiny_well_formed tiny_divisible tiny_out0_length len by blast
qed

theorem unit_filter_stores_zero_plus_pixel_witness:
  "filterWidth tiny_geom = 1 \<and> halo tiny_geom = 0 \<and>
   length tiny_input = range_size (inBufRange tiny_geom) \<and>
   8 dvd inputImgHeight tiny_geom \<and> 8 dvd inputImgWidth tiny_geom \<and>
   length tiny_out0 = range_size (outBufRange tiny_geom) \<and>
   list_all (\<lambda>v. f4_add f4_zero (f4_mul v (Float4 1 1 1 1)) = v) tiny_input \<and>
   (\<exists>c. run tiny_geom tiny_input [Float4 1 1 1 1] (round_robin tiny_geom)
            (init_config tiny_geom tiny_sums tiny_out0) = Inr c \<and>
        finished tiny_geom c \<and>
        outDev c = map (\<lambda>v. f4_add f4_zero (f4_mul v (Float4 1 1 1 1))) tiny_input \<and>
        outDev c = tiny_input \<and>
        outDev c ! 10 = Float4 10 0 0 1)"
proof -
  have h: "filterWidth tiny_geom = 1" "halo tiny_geom = 0"
    "length tiny_input = range_size (inBufRange tiny_geom)"
    by (simp_all add: tiny_geom_def tiny_input_def range_size_def inBufRange_def)
  have law: "f4_add f4_zero (f4_mul v (Float4 1 1 1 1)) = v" for v :: "int float4"
    by (cases v) (simp add: f4_zero_def)
  then have l: "\<forall>v \<in> set tiny_input. f4_add f4_zero (f4_mul v (Float4 1 1 1 1)) = v"
    by simp
  note U = unit_filter_stores_zero_plus_pixel [OF h tiny_divisible tiny_out0_length, of tiny_sums]
  from U obtain c where
    c: "run tiny_geom tiny_input [Float4 1 1 1 1] (round_robin tiny_geom)
          (init_config tiny_geom tiny_sums tiny_out0) = Inr c"
       "finished tiny_geom c"
    by blast
  from U c have o: "outDev c = map (\<lambda>v. f4_add f4_zero (f4_mul v (Float4 1 1 1 1))) tiny_input"
      "(outDev c = tiny_input) =
         (\<forall>v \<in> set tiny_input. f4_add f4_zero (f4_mul v (Float4 1 1 1 1)) = v)"
    by (metis sum.inject(2))+
  from o(2) l have i: "outDev c = tiny_input"
    by simp
  have "tiny_input ! 10 = Float4 10 0 0 1"
    by (simp add: tiny_input_def)
  with c o(1) i have "\<exists>c. run tiny_geom tiny_input [Float4 1 1 1 1] (round_robin tiny_geom)
            (init_config tiny_geom tiny_sums tiny_out0) = Inr c \<and>
        finished tiny_geom c \<and>
        outDev c = map (\<lambda>v. f4_add f4_zero (f4_mul v (Float4 1 1 1 1))) tiny_input \<and>
        outDev c = tiny_input \<and>
        outDev c ! 10 = Float4 10 0 0 1"
    by (intro exI [of _ c]) simp
  moreover have "list_all (\<lambda>v. f4_add f4_zero (f4_mul v (Float4 1 1 1 1)) = v) tiny_input"
    using law by (simp add: list_all_iff)
  ultimately show ?thesis
    using h tiny_divisible tiny_out0_length by blast
qed

text \<open>
  Claim C8 fails for an image with a \<open>-0.0\<close> component: with filter width 1, halo 0 and
  the filter weight 1, the completed dispatch stores \<open>0.0 + -0.0 * 1.0\<close>, which is \<open>+0.0\<close>,
  so the output buffer differs from the input buffer.
\<close>

theorem unit_filter_not_bit_identical:
  "filterWidth tiny_geom = 1 \<and> halo tiny_geom = 0 \<and>
   length signed_input = range_size (inBufRange tiny_geom) \<and>
   (\<exists>c. run tiny_geom signed_input [Float4 1 1 1 1] (round_robin tiny_geom)
            (init_config tiny_geom (\<lambda>it. f4_zero) (replicate 64 f4_zero)) = Inr c \<and>
        finished tiny_geom c \<and>
        signed_input ! 10 =
          Float4 (SFloat False 10) (SFloat True 0) (SFloat False 0) (SFloat False 1) \<and>
        outDev c ! 10 =
          Float4 (SFloat False 10) (SFloat False 0) (SFloat False 0) (SFloat False 1) \<and>
        outDev c \<noteq> signed_input)"
proof -
  have h: "filterWidth tiny_geom = 1" "halo tiny_geom = 0"
    "length signed_input = range_size (inBufRange tiny_geom)"
    by (simp_all add: tiny_geom_def signed_input_def range_size_def inBufRange_def)
  have wf: "well_formed tiny_geom signed_input [Float4 1 1 1 1]"
    using h by (simp add: well_formed_def half_width_def range_size_def filterRange_def)
  have len: "length (replicate 64 (f4_zero :: sfloat float4)) = range_size (outBufRange tiny_geom)"
    by (simp add: tiny_geom_def range_size_def outBufRange_def)
  from round_robin_completes [OF wf len, of "\<lambda>it. f4_zero"] obtain c where
    c: "run tiny_geom signed_input [Float4 1 1 1 1] (round_robin tiny_geom)
          (init_config tiny_geom (\<lambda>it. f4_zero) (replicate 64 f4_zero)) = Inr c"
       "finished tiny_geom c"
    by blast
  from dispatch_sound [OF wf len tiny_divisible, of "round_robin tiny_geom" "\<lambda>it. f4_zero"] c
  have "outDev c = naive_convolution tiny_geom signed_input [Float4 1 1 1 1]"
    by (metis sum.inject(2))
  then have o: "outDev c = map (\<lambda>v. f4_add f4_zero (f4_mul v (Float4 1 1 1 1))) signed_input"
    by (simp add: naive_unit_filter [OF h])
  have i: "signed_input ! 10 =
          Float4 (SFloat False 10) (SFloat True 0) (SFloat False 0) (SFloat False 1)"
    by (simp add: signed_input_def)
  have p: "outDev c ! 10 =
          Float4 (SFloat False 10) (SFloat False 0) (SFloat False 0) (SFloat False 1)"
    unfolding o by (simp add: signed_input_def f4_zero_def zero_sfloat_def one_sfloat_def)
  from i p have "outDev c ! 10 \<noteq> signed_input ! 10"
    by simp
  then have "outDev c \<noteq> signed_input"
    by auto
  with c i p have "\<exists>c. run tiny_geom signed_input [Float4 1 1 1 1] (round_robin tiny_geom)
            (init_config tiny_geom (\<lambda>it. f4_zero) (replicate 64 f4_zero)) = Inr c \<and>
        finished tiny_geom c \<and>
        signed_input ! 10 =
          Float4 (SFloat False 10) (SFloat True 0) (SFloat False 0) (SFloat False 1) \<and>
        outDev c ! 10 =
          Float4 (SFloat False 10) (SFloat False 0) (SFloat False 0) (SFloat False 1) \<and>
        outDev c \<noteq> signed_input"
    by (intro exI [of _ c]) simp
  then show ?thesis
    using h by blast
qed

theorem halo_completeness_witness:
  "well_formed demo_geom demo_input demo_filter \<and>
   demo_item \<in> set (nd_items demo_geom) \<and>
   length (replicate 64 (f4_zero :: int float4)) = range_size (outBufRange demo_geom) \<and>
   (2::nat) < filterWidth demo_geom \<and> (1::nat) < filterWidth demo_geom \<and>
   in_range (3, 3) (scratchpadRange demo_geom) \<and>
   (\<exists>it' k. it' \<in> set (group_items (0, 0)) \<and> Stage (3, 3) k \<in> set (tile_loader demo_geom it')) \<and>
   (\<exists>k. MulAcc (3, 3) k \<in> set (conv_evaluator demo_geom demo_item)) \<and>
   (\<exists>c. run demo_geom demo_input demo_filter (replicate 30 demo_item) demo_config = Inr c)"
proof -
  note H = halo_completeness [OF demo_well_formed demo_item_in demo_out0_length,
      of "\<lambda>it. f4_zero"]
  have rc: "(2::nat) < filterWidth demo_geom" "(1::nat) < filterWidth demo_geom"
    by (simp_all add: demo_geom_def)
  have l: "fst (local_id demo_item) + 2 = 3" "snd (local_id demo_item) + 1 = 3"
    "group_id demo_item = (0, 0)"
    by (simp_all add: demo_item_def)
  from H rc have "in_range (fst (local_id demo_item) + 2, snd (local_id demo_item) + 1)
                    (scratchpadRange demo_geom) \<and>
           (\<exists>it' \<in> set (group_items (group_id demo_item)). \<exists>k.
               Stage (fst (local_id demo_item) + 2, snd (local_id demo_item) + 1) k
                 \<in> set (tile_loader demo_geom it'))"
    by blast
  then have a: "in_range (3, 3) (scratchpadRange demo_geom)"
    and b: "\<exists>it' k. it' \<in> set (group_items (0, 0)) \<and>
                Stage (3, 3) k \<in> set (tile_loader demo_geom it')"
    unfolding l by blast+
  from H rc have "(fst (local_id demo_item) + 2, snd (local_id demo_item) + 1) \<in>
           {cell. \<exists>k. MulAcc cell k \<in> set (conv_evaluator demo_geom demo_item)}"
    by blast
  then have c: "\<exists>k. MulAcc (3, 3) k \<in> set (conv_evaluator demo_geom demo_item)"
    unfolding l by simp
  from H have d: "\<exists>c. run demo_geom demo_input demo_filter (replicate 30 demo_item)
                        demo_config = Inr c"
    unfolding demo_config_def by blast
  show ?thesis
    using demo_well_formed demo_item_in demo_out0_length rc a b c d by blast
qed

theorem barrier_separates_staging_from_reading_witness:
  "well_formed tiny_geom tiny_input tiny_filter \<and>
   length tiny_out0 = range_size (outBufRange tiny_geom) \<and>
   \<lparr>group_id = (0, 0), local_id = (1, 2)\<rparr> \<in> set (nd_items tiny_geom) \<and>
   in_range (3, 4) (scratchpadRange tiny_geom) \<and>
   (\<exists>c. run tiny_geom tiny_input tiny_filter (round_robin tiny_geom)
            (init_config tiny_geom tiny_sums tiny_out0) = Inr c \<and>
        GroupBarrier \<notin> set (pc c \<lparr>group_id = (0, 0), local_id = (1, 2)\<rparr>) \<and>
        scratch c (0, 0) (3, 4) = Some (tile tiny_geom tiny_input (0, 0) (3, 4)) \<and>
        scratch c (0, 0) (3, 4) = Some (Float4 28 0 0 1)) \<and>
   (\<exists>pre post. kernel_item demo_geom demo_item = pre @ [GroupBarrier] @ post \<and>
        Stage (9, 2) 92 \<in> set pre \<and> MulAcc (3, 4) 8 \<in> set post)"
proof -
  note B = barrier_separates_staging_from_reading [OF tiny_well_formed tiny_out0_length,
      of tiny_sums]
  note B' = barrier_separates_staging_from_reading [OF demo_well_formed demo_out0_length,
      of "\<lambda>it. f4_zero"]
  let ?it = "\<lparr>group_id = (0, 0), local_id = (1, 2)\<rparr>"
  note it = tiny_item_in
  have cell: "in_range (3, 4) (scratchpadRange tiny_geom)"
    by (simp add: in_range_def scratchpadRange_def tiny_geom_def localRange_def)
  from tiny_dispatch obtain c where
    c: "run tiny_geom tiny_input tiny_filter (round_robin tiny_geom)
          (init_config tiny_geom tiny_sums tiny_out0) = Inr c"
       "finished tiny_geom c"
    by blast
  have p: "pc c ?it = []"
    using c(2) it by (simp add: finished_def list_all_iff)
  from B c(1) have "\<forall>it \<in> set (nd_items tiny_geom). GroupBarrier \<notin> set (pc c it) \<longrightarrow>
               (\<forall>cell. in_range cell (scratchpadRange tiny_geom) \<longrightarrow>
                  scratch c (group_id it) cell = Some (tile tiny_geom tiny_input (group_id it) cell))"
    by (metis sum.inject(2))
  with it cell p have s: "scratch c (0, 0) (3, 4) = Some (tile tiny_geom tiny_input (0, 0) (3, 4))"
    by fastforce
  have "tile tiny_geom tiny_input (0, 0) (3, 4) = Float4 28 0 0 1"
    by (simp add: tile_def tiny_geom_def tiny_input_def inBufRange_def localRange_def)
  with c(1) p s have 1: "\<exists>c. run tiny_geom tiny_input tiny_filter (round_robin tiny_geom)
            (init_config tiny_geom tiny_sums tiny_out0) = Inr c \<and>
        GroupBarrier \<notin> set (pc c ?it) \<and>
        scratch c (0, 0) (3, 4) = Some (tile tiny_geom tiny_input (0, 0) (3, 4)) \<and>
        scratch c (0, 0) (3, 4) = Some (Float4 28 0 0 1)"
    by (intro exI [of _ c]) simp
  from B' obtain pre post where
    k: "kernel_item demo_geom demo_item = pre @ [GroupBarrier] @ post"
    and pre: "\<forall>e \<in> set pre. \<exists>cell k. e = Stage cell k"
    and post: "\<forall>e \<in> set post. e \<noteq> GroupBarrier \<and> (\<forall>cell k. e \<noteq> Stage cell k)"
    by blast
  have ev: "kernel_item demo_geom demo_item =
      [Stage (1, 2) 12, Stage (9, 2) 92, GroupBarrier, SumInit, MulAcc (1, 2) 0,
       MulAcc (1, 3) 1, MulAcc (1, 4) 2, MulAcc (2, 2) 3, MulAcc (2, 3) 4,
       MulAcc (2, 4) 5, MulAcc (3, 2) 6, MulAcc (3, 3) 7, MulAcc (3, 4) 8, Store 10]"
    by code_simp
  have "Stage (9, 2) 92 \<in> set (kernel_item demo_geom demo_item)"
    "MulAcc (3, 4) 8 \<in> set (kernel_item demo_geom demo_item)"
    unfolding ev by simp_all
  then have "Stage (9, 2) 92 \<in> set pre" "MulAcc (3, 4) 8 \<in> set post"
    unfolding k using pre post by auto
  with k have 2: "\<exists>pre post. kernel_item demo_geom demo_item = pre @ [GroupBarrier] @ post \<and>
        Stage (9, 2) 92 \<in> set pre \<and> MulAcc (3, 4) 8 \<in> set post"
    by blast
  show ?thesis
    using tiny_well_formed tiny_out0_length it cell 1 2 by blast
qed


section \<open>The host program\<close>

lemma copy_full:
  "length src = n \<Longrightarrow> length dst = n \<Longrightarrow> copy n src dst = Inr src"
  by (simp add: copy_def)

lemma length_malloc_device: "length (malloc_device e n) = n"
  by (simp add: malloc_device_def)

lemma length_allocate_image:
  "length (allocate_image e g) = range_size (outBufRange g)"
  by (simp add: allocate_image_def range_size_def outBufRange_def)

lemma main_throws:
  fixes e :: "('a::{zero,plus,times}) env"
  assumes st: "st \<notin> {FreeIn, FreeOut, FreeFilter}"
    and thr: "throws e st = Some msg"
    and before: "\<forall>x \<in> set (takeWhile (\<lambda>x. x \<noteq> st) try_block). throws e x = None"
    and len: "length inputImage = range_size (inBufRange g)"
             "length filt = range_size (filterRange g)"
    and kern: "st = CopyBack \<longrightarrow>
                 (\<exists>c. run g inputImage filt (schedule e)
                        (init_config g (registers e)
                           (malloc_device e (range_size (outBufRange g)))) = Inr c \<and>
                      finished g c)"
  shows "main e g inputImage filt =
           Returned ((if st = SelectDevice \<or> st = PrintRunningOn then []
                      else if st = GetDeviceName then ''Running on ''
                      else ''Running on '' @ device_name e @ [CHR 0x0A])
                     @ ''Exception caught: '' @ msg @ [CHR 0x0A])
                    (allocate_image e g) 0"
proof -
  note c1 = copy_full [OF len(1) length_malloc_device]
  note c2 = copy_full [OF len(2) length_malloc_device]
  show ?thesis
  proof (cases st)
    case SelectDevice
    then show ?thesis using thr by (simp add: main_def try_block_def)
  next
    case PrintRunningOn
    then show ?thesis using thr before by (simp add: main_def try_block_def)
  next
    case GetDeviceName
    then show ?thesis using thr before by (simp add: main_def try_block_def)
  next
    case MallocIn
    then show ?thesis using thr before by (simp add: main_def try_block_def)
  next
    case MallocOut
    then show ?thesis using thr before by (simp add: main_def try_block_def)
  next
    case MallocFilter
    then show ?thesis using thr before by (simp add: main_def try_block_def)
  next
    case CopyIn
    then show ?thesis using thr before by (simp add: main_def try_block_def)
  next
    case CopyFilter
    then show ?thesis using thr before by (simp add: main_def try_block_def c1)
  next
    case WaitCopies
    then show ?thesis using thr before by (simp add: main_def try_block_def benchmark_def submit_and_wait_def c1 c2)
  next
    case Benchmark
    then show ?thesis using thr before by (simp add: main_def try_block_def benchmark_def submit_and_wait_def c1 c2)
  next
    case CopyBack
    with kern obtain c where
      "run g inputImage filt (schedule e)
         (init_config g (registers e) (malloc_device e (range_size (outBufRange g)))) = Inr c"
      "finished g c"
      by blast
    then show ?thesis using CopyBack thr before by (simp add: main_def try_block_def benchmark_def submit_and_wait_def c1 c2)
  next
    case FreeIn
    then show ?thesis using st by simp
  next
    case FreeOut
    then show ?thesis using st by simp
  next
    case FreeFilter
    then show ?thesis using st by simp
  qed
qed


lemma effect_no_throw:
  "effect e g inputImage filt st s \<noteq> Inl (Throw msg)"
  by (cases st)
     (auto simp: copy_def benchmark_def submit_and_wait_def split: sum.splits if_splits)

lemma main_quiet:
  fixes e :: "('a::{zero,plus,times}) env"
  assumes "\<forall>x. throws e x = None" "main e g inputImage filt = Returned out w s"
  shows "out = ''Running on '' @ device_name e @ [CHR 0x0A] \<and> s = 0"
proof -
  let ?s0 = "\<lparr>printed = [], outputImage = allocate_image e g,
              inDevBuf = [], outDevBuf = [], filterDevBuf = []\<rparr>"
  have pr: "printed s' = printed s0 @ concat (map (\<lambda>st.
               if st = PrintRunningOn then ''Running on ''
               else if st = GetDeviceName then device_name e @ [CHR 0x0A] else []) sts)"
    if "run_try e g inputImage filt sts s0 = Inr s'" for sts s0 s'
    using that
  proof (induction sts arbitrary: s0)
    case Nil
    then show ?case by simp
  next
    case (Cons st sts)
    from Cons.prems assms(1) obtain s1 where
      eff: "effect e g inputImage filt st s0 = Inr s1"
      and rest: "run_try e g inputImage filt sts s1 = Inr s'"
      by (auto split: sum.splits)
    have "printed s1 = printed s0 @
            (if st = PrintRunningOn then ''Running on ''
             else if st = GetDeviceName then device_name e @ [CHR 0x0A] else [])"
      using eff
      by (cases st) (auto simp: benchmark_def submit_and_wait_def split: sum.splits if_splits)
    with Cons.IH [OF rest] show ?case by simp
  qed
  have nothrow: "run_try e g inputImage filt sts s0 \<noteq> Inl (Throw msg, s')" for sts s0 msg s'
    using assms(1)
    by (induction sts arbitrary: s0) (auto simp: effect_no_throw split: sum.splits)
  from assms(2) nothrow obtain s' where
    r: "run_try e g inputImage filt try_block ?s0 = Inr s'" and o: "out = printed s'" "s = 0"
    unfolding main_def
    by (auto split: sum.splits prod.splits abort.splits)
  from pr [OF r] o show ?thesis
    by (simp add: try_block_def)
qed


lemma main_success:
  fixes e :: "('a::{zero,plus,times}) env"
  assumes "\<forall>x. throws e x = None"
    and "well_formed g inputImage filt"
    and "8 dvd inputImgHeight g" "8 dvd inputImgWidth g"
    and "run g inputImage filt (schedule e)
           (init_config g (registers e) (malloc_device e (range_size (outBufRange g)))) = Inr c"
    and "finished g c"
  shows "main e g inputImage filt =
           Returned (''Running on '' @ device_name e @ [CHR 0x0A])
             (naive_convolution g inputImage filt) 0"
proof -
  have len: "length inputImage = range_size (inBufRange g)"
    "length filt = range_size (filterRange g)"
    using assms(2) by (simp_all add: well_formed_def)
  note c1 = copy_full [OF len(1) length_malloc_device]
  note c2 = copy_full [OF len(2) length_malloc_device]
  from dispatch_sound [OF assms(2) length_malloc_device [of e] assms(3,4),
      of "schedule e" "registers e"] assms(5,6)
  have out: "outDev c = naive_convolution g inputImage filt"
    by auto
  have "length (naive_convolution g inputImage filt) = range_size (outBufRange g)"
    by (simp add: naive_convolution_def range_size_def outBufRange_def)
  note c3 = copy_full [OF this length_allocate_image]
  show ?thesis
    using assms(1,5,6) by (simp add: main_def try_block_def benchmark_def submit_and_wait_def c1 c2 c3 out)
qed

text \<open>
  When the first statement to throw is one of the three \<^verbatim>\<open>sycl::free\<close> calls, the copy
  back has happened: the exception is caught and printed all the same, and the image
  written is the convolved one.
\<close>

lemma main_free_throws:
  fixes e :: "('a::{zero,plus,times}) env"
  assumes "st \<in> {FreeIn, FreeOut, FreeFilter}"
    and "throws e st = Some msg"
    and "\<forall>x \<in> set (takeWhile (\<lambda>x. x \<noteq> st) try_block). throws e x = None"
    and "well_formed g inputImage filt"
    and "8 dvd inputImgHeight g" "8 dvd inputImgWidth g"
    and "run g inputImage filt (schedule e)
           (init_config g (registers e) (malloc_device e (range_size (outBufRange g)))) = Inr c"
    and "finished g c"
  shows "main e g inputImage filt =
           Returned (''Running on '' @ device_name e @ [CHR 0x0A]
                       @ ''Exception caught: '' @ msg @ [CHR 0x0A])
             (naive_convolution g inputImage filt) 0"
proof -
  have len: "length inputImage = range_size (inBufRange g)"
    "length filt = range_size (filterRange g)"
    using assms(4) by (simp_all add: well_formed_def)
  note c1 = copy_full [OF len(1) length_malloc_device]
  note c2 = copy_full [OF len(2) length_malloc_device]
  from dispatch_sound [OF assms(4) length_malloc_device [of e] assms(5,6),
      of "schedule e" "registers e"] assms(7,8)
  have out: "outDev c = naive_convolution g inputImage filt"
    by auto
  have "length (naive_convolution g inputImage filt) = range_size (outBufRange g)"
    by (simp add: naive_convolution_def range_size_def outBufRange_def)
  note c3 = copy_full [OF this length_allocate_image]
  from assms(1) consider "st = FreeIn" | "st = FreeOut" | "st = FreeFilter"
    by auto
  then show ?thesis
  proof cases
    case 1
    then show ?thesis
      using assms(2,3,7,8) by (simp add: main_def try_block_def benchmark_def submit_and_wait_def c1 c2 c3 out)
  next
    case 2
    then show ?thesis
      using assms(2,3,7,8) by (simp add: main_def try_block_def benchmark_def submit_and_wait_def c1 c2 c3 out)
  next
    case 3
    then show ?thesis
      using assms(2,3,7,8) by (simp add: main_def try_block_def benchmark_def submit_and_wait_def c1 c2 c3 out)
  qed
qed



text \<open>
  Claim C5 fails: for a 4 by 4 image, which no 8 by 8 group divides, and a runtime that
  lets every statement complete, \<^verbatim>\<open>main\<close> reports no error; it prints the device name,
  writes an image and returns 0.
\<close>

theorem non_multiple_size_not_rejected:
  "\<not> 8 dvd inputImgHeight odd_geom \<and> \<not> 8 dvd inputImgWidth odd_geom \<and>
   main quiet_env odd_geom odd_input tiny_filter =
     Returned (''Running on gpu'' @ [CHR 0x0A]) (replicate 16 (Float4 9 9 9 9)) 0"
  by (simp add: odd_geom_def) code_simp

text \<open>
  Claim C5, amended. The program has no divisibility check of its own. For every image
  size, a multiple of the group shape or not: when the runtime throws at the dispatch,
  \<^verbatim>\<open>main\<close> reports that one error and writes the image as \<^verbatim>\<open>allocate_image\<close> left
  it; when the runtime lets every statement complete, \<^verbatim>\<open>main\<close> reports no error.
\<close>

theorem size_check_left_to_runtime:
  fixes e :: "('a::{zero,plus,times}) env"
  assumes "length inputImage = range_size (inBufRange g)"
    and "length filt = range_size (filterRange g)"
  shows "((\<forall>x \<in> set (takeWhile (\<lambda>x. x \<noteq> Benchmark) try_block). throws e x = None) \<and>
          throws e Benchmark = Some msg \<longrightarrow>
            main e g inputImage filt =
              Returned (''Running on '' @ device_name e @ [CHR 0x0A]
                          @ ''Exception caught: '' @ msg @ [CHR 0x0A])
                       (allocate_image e g) 0)
       \<and> ((\<forall>x. throws e x = None) \<longrightarrow>
            (\<forall>out w s. main e g inputImage filt = Returned out w s \<longrightarrow>
               out = ''Running on '' @ device_name e @ [CHR 0x0A] \<and> s = 0))"
proof (intro conjI impI allI)
  assume a: "(\<forall>x \<in> set (takeWhile (\<lambda>x. x \<noteq> Benchmark) try_block). throws e x = None) \<and>
          throws e Benchmark = Some msg"
  have "Benchmark \<notin> {FreeIn, FreeOut, FreeFilter}" by simp
  from main_throws [OF this _ _ assms, of e msg] a
  show "main e g inputImage filt =
              Returned (''Running on '' @ device_name e @ [CHR 0x0A]
                          @ ''Exception caught: '' @ msg @ [CHR 0x0A])
                       (allocate_image e g) 0"
    by simp
next
  fix out w s
  assume "\<forall>x. throws e x = None" "main e g inputImage filt = Returned out w s"
  then show "out = ''Running on '' @ device_name e @ [CHR 0x0A]" "s = 0"
    using main_quiet by blast+
qed

theorem size_check_left_to_runtime_witness:
  "length odd_input = range_size (inBufRange odd_geom) \<and>
   length tiny_filter = range_size (filterRange odd_geom) \<and>
   \<not> 8 dvd inputImgHeight odd_geom \<and>
   list_all (\<lambda>x. throws strict_env x = None) (takeWhile (\<lambda>x. x \<noteq> Benchmark) try_block) \<and>
   throws strict_env Benchmark = Some ''nd_range'' \<and>
   main strict_env odd_geom odd_input tiny_filter =
     Returned (''Running on gpu'' @ [CHR 0x0A] @ ''Exception caught: nd_range'' @ [CHR 0x0A])
       (replicate 16 (Float4 3 3 3 3)) 0 \<and>
   (\<forall>x. throws quiet_env x = None) \<and>
   main quiet_env odd_geom odd_input tiny_filter =
     Returned (''Running on gpu'' @ [CHR 0x0A]) (replicate 16 (Float4 9 9 9 9)) 0"
proof -
  have len: "length odd_input = range_size (inBufRange odd_geom)"
    "length tiny_filter = range_size (filterRange odd_geom)"
    by (simp_all add: odd_input_def tiny_filter_def odd_geom_def range_size_def
          inBufRange_def filterRange_def)
  note T = size_check_left_to_runtime [OF len]
  have nd: "\<not> 8 dvd inputImgHeight odd_geom"
    by (simp add: odd_geom_def)
  have b: "list_all (\<lambda>x. throws strict_env x = None)
              (takeWhile (\<lambda>x. x \<noteq> Benchmark) try_block)"
    by (simp add: try_block_def strict_env_def)
  have t: "throws strict_env Benchmark = Some ''nd_range''"
    by (simp add: strict_env_def)
  have img: "allocate_image strict_env odd_geom = replicate 16 (Float4 3 3 3 3)"
    by (simp add: allocate_image_def strict_env_def quiet_env_def odd_geom_def
          map_replicate_const)
  have m1: "main strict_env odd_geom odd_input tiny_filter =
     Returned (''Running on gpu'' @ [CHR 0x0A] @ ''Exception caught: nd_range'' @ [CHR 0x0A])
       (replicate 16 (Float4 3 3 3 3)) 0"
    using T [of strict_env "''nd_range''"] b t img
    by (simp add: list_all_iff) (simp add: strict_env_def quiet_env_def)
  have q: "\<forall>x. throws quiet_env x = None"
    by (simp add: quiet_env_def)
  have m2: "main quiet_env odd_geom odd_input tiny_filter =
     Returned (''Running on gpu'' @ [CHR 0x0A]) (replicate 16 (Float4 9 9 9 9)) 0"
    by code_simp
  show ?thesis
    using len nd b t m1 q m2 by simp
qed


end
